theory Spec2Isabelle
  imports Main "HOL-Library.Sublist"
begin

section \<open>Strings\<close>

text \<open>
  A JavaScript string is a sequence of UTF-16 code units. The model uses \<open>string\<close>
  and reads a \<open>char\<close> as the code unit of the same number, so it covers the strings
  whose code units are all below 256 (ASCII and Latin-1).

  \<open>js_space\<close> is the class \<^verbatim>\<open>\s\<close> of a regular expression on these code units (the
  white space and line terminators of ECMAScript: TAB, LF, VT, FF, CR, SP, NBSP), which
  is also what \<^verbatim>\<open>String.prototype.trim\<close> strips. \<open>js_word\<close> is \<^verbatim>\<open>\w\<close>, that is
  \<^verbatim>\<open>[A-Za-z0-9_]\<close>.
\<close>

definition js_space :: "char \<Rightarrow> bool" where
  "js_space c \<longleftrightarrow> c \<in> set [CHR 0x09, CHR 0x0A, CHR 0x0B, CHR 0x0C, CHR 0x0D, CHR 0x20, CHR 0xA0]"

definition js_word :: "char \<Rightarrow> bool" where
  "js_word c \<longleftrightarrow>
     (let n = (of_char c :: nat)
      in (65 \<le> n \<and> n \<le> 90) \<or> (97 \<le> n \<and> n \<le> 122) \<or> (48 \<le> n \<and> n \<le> 57) \<or> n = 95)"

definition trim :: "string \<Rightarrow> string" where
  "trim s = rev (dropWhile js_space (rev (dropWhile js_space s)))"

text \<open>\<^verbatim>\<open>s.includes(t)\<close>: \<open>t\<close> occurs in \<open>s\<close> as a contiguous substring.\<close>

fun js_includes :: "string \<Rightarrow> string \<Rightarrow> bool" where
  "js_includes [] t = (t = [])"
| "js_includes (x # xs) t = (prefix t (x # xs) \<or> js_includes xs t)"

text \<open>
  \<^verbatim>\<open>s.toLowerCase()\<close> on code units below 256: the ASCII capitals and the Latin-1
  capitals U+00C0 to U+00DE (without the multiplication sign U+00D7) move up by 32.
\<close>

definition lower_char :: "char \<Rightarrow> char" where
  "lower_char c =
     (let n = (of_char c :: nat)
      in if (65 \<le> n \<and> n \<le> 90) \<or> (192 \<le> n \<and> n \<le> 222 \<and> n \<noteq> 215)
         then char_of (n + 32) else c)"

definition toLowerCase :: "string \<Rightarrow> string" where
  "toLowerCase s = map lower_char s"

section \<open>Regular expressions of the source\<close>

text \<open>
  The three regular expressions of \<^verbatim>\<open>utils.ts\<close> are sequences of items: an assertion
  (\<^verbatim>\<open>^\<close>, \<^verbatim>\<open>$\<close>), one character of a class, or a class under the greedy quantifier
  \<^verbatim>\<open>+\<close>. None has a flag, so \<^verbatim>\<open>^\<close> and \<^verbatim>\<open>$\<close> hold only at the two ends of the input
  and a negated class also matches a line terminator.

  \<open>rmatch\<close> is the backtracking matcher at one start position: it returns the text each
  item consumed, in the order of the items. A quantified class first tries to take one
  more character and falls back to stopping, which is the order in which a JavaScript
  engine explores a greedy \<^verbatim>\<open>+\<close>. \<open>rsearch\<close> tries the start positions from the left,
  as \<^verbatim>\<open>RegExp.prototype.exec\<close> does; the argument \<open>i\<close> is the position reached.
\<close>

datatype item = Bos | Eos | One "char \<Rightarrow> bool" | Many1 "char \<Rightarrow> bool"

fun rmatch :: "item list \<Rightarrow> nat \<Rightarrow> string \<Rightarrow> string list option" where
  "rmatch [] i s = Some []"
| "rmatch (Bos # r) i s = (if i = 0 then map_option (Cons []) (rmatch r i s) else None)"
| "rmatch (Eos # r) i s = (if s = [] then map_option (Cons []) (rmatch r i s) else None)"
| "rmatch (One c # r) i [] = None"
| "rmatch (One c # r) i (x # xs) =
     (if c x then map_option (Cons [x]) (rmatch r (Suc i) xs) else None)"
| "rmatch (Many1 c # r) i [] = None"
| "rmatch (Many1 c # r) i (x # xs) =
     (if c x
      then (case rmatch (Many1 c # r) (Suc i) xs of
              Some (g # gs) \<Rightarrow> Some ((x # g) # gs)
            | _ \<Rightarrow> map_option (Cons [x]) (rmatch r (Suc i) xs))
      else None)"

fun rsearch :: "item list \<Rightarrow> nat \<Rightarrow> string \<Rightarrow> string list option" where
  "rsearch p i [] = rmatch p i []"
| "rsearch p i (x # xs) =
     (case rmatch p i (x # xs) of
        Some gs \<Rightarrow> Some gs
      | None \<Rightarrow> rsearch p (Suc i) xs)"

text \<open>\<^verbatim>\<open>/^[^\s@]+@[^\s@]+\.[^\s@]+$/\<close>\<close>

definition not_space_at :: "char \<Rightarrow> bool" where
  "not_space_at c \<longleftrightarrow> \<not> js_space c \<and> c \<noteq> CHR ''@''"

definition email_re :: "item list" where
  "email_re =
     [Bos, Many1 not_space_at, One (\<lambda>c. c = CHR ''@''), Many1 not_space_at,
      One (\<lambda>c. c = CHR ''.''), Many1 not_space_at, Eos]"

text \<open>\<^verbatim>\<open>/<([^>]+)>/\<close>; the group is the second item.\<close>

definition bracket_re :: "item list" where
  "bracket_re = [One (\<lambda>c. c = CHR ''<''), Many1 (\<lambda>c. c \<noteq> CHR ''>''), One (\<lambda>c. c = CHR ''>'')]"

text \<open>\<^verbatim>\<open>/[\w.-]+@[\w.-]+\.\w+/\<close>\<close>

definition word_dot_dash :: "char \<Rightarrow> bool" where
  "word_dot_dash c \<longleftrightarrow> js_word c \<or> c = CHR ''.'' \<or> c = CHR ''-''"

definition plain_re :: "item list" where
  "plain_re =
     [Many1 word_dot_dash, One (\<lambda>c. c = CHR ''@''), Many1 word_dot_dash,
      One (\<lambda>c. c = CHR ''.''), Many1 js_word]"

section \<open>Address validation and extraction (utils.ts)\<close>

definition validateEmail :: "string \<Rightarrow> bool" where
  "validateEmail email \<longleftrightarrow> rsearch email_re 0 email \<noteq> None"

text \<open>
  \<^verbatim>\<open>match[1]\<close> is the text of the group and \<^verbatim>\<open>emailMatch[0]\<close> the whole match, the
  concatenation of what the items consumed.
\<close>

definition extractEmailAddress :: "string \<Rightarrow> string" where
  "extractEmailAddress emailString =
     (case rsearch bracket_re 0 emailString of
        Some m \<Rightarrow> m ! 1
      | None \<Rightarrow>
          (case rsearch plain_re 0 emailString of
             Some emailMatch \<Rightarrow> concat emailMatch
           | None \<Rightarrow> trim emailString))"

text \<open>
  The text-parsing step of \<^verbatim>\<open>extractSenderFromElement\<close> (method 3, once the sender
  element's text is read): the extracted string is a candidate when it is non-empty and
  passes validation.
\<close>

definition parse_sender_text :: "string \<Rightarrow> string option" where
  "parse_sender_text text =
     (let extracted = extractEmailAddress text
      in if extracted \<noteq> [] \<and> validateEmail extracted then Some extracted else None)"

section \<open>The rendered document\<close>

text \<open>
  The document is a tree of text nodes and elements. An element has its tag name and
  its attributes (both in lower case, as the HTML parser stores them), its \<^verbatim>\<open>value\<close>
  and \<^verbatim>\<open>checked\<close> properties, and its child nodes. The \<^verbatim>\<open>value\<close> of a form
  control is a string; an element that is no form control has none (\<^verbatim>\<open>undefined\<close>)
  until the script assigns one. For \<^verbatim>\<open>checked\<close>, which the script only tests for
  truth, \<open>False\<close> also stands for \<^verbatim>\<open>undefined\<close>. A reference to an element is its
  path from the root: the child indices on the way down.
\<close>

datatype node =
    Text string
  | Element string "(string \<times> string) list" "string option" bool "node list"

type_synonym path = "nat list"

fun node_at :: "path \<Rightarrow> node \<Rightarrow> node option" where
  "node_at [] n = Some n"
| "node_at (i # p) (Text s) = None"
| "node_at (i # p) (Element t a v c cs) = (if i < length cs then node_at p (cs ! i) else None)"

definition element_at :: "node \<Rightarrow> path \<Rightarrow> node option" where
  "element_at d p =
     (case node_at p d of
        Some (Element t a v c cs) \<Rightarrow> Some (Element t a v c cs)
      | _ \<Rightarrow> None)"

text \<open>\<^verbatim>\<open>parentElement\<close>: the root element has none.\<close>

definition parentElement :: "path \<Rightarrow> path option" where
  "parentElement p = (if p = [] then None else Some (butlast p))"

fun tagName :: "node \<Rightarrow> string" where
  "tagName (Text s) = []"
| "tagName (Element t a v c cs) = t"

fun getAttribute :: "node \<Rightarrow> string \<Rightarrow> string option" where
  "getAttribute (Text s) name = None"
| "getAttribute (Element t a v c cs) name = map_of a name"

definition hasAttribute :: "node \<Rightarrow> string \<Rightarrow> bool" where
  "hasAttribute n name \<longleftrightarrow> getAttribute n name \<noteq> None"

fun input_value :: "node \<Rightarrow> string option" where
  "input_value (Text s) = None"
| "input_value (Element t a v c cs) = v"

fun input_checked :: "node \<Rightarrow> bool" where
  "input_checked (Text s) = False"
| "input_checked (Element t a v c cs) = c"

text \<open>\<^verbatim>\<open>textContent\<close>: the text of all descendant text nodes, in document order.\<close>

fun textContent :: "node \<Rightarrow> string" where
  "textContent (Text s) = s"
| "textContent (Element t a v c cs) = concat (map textContent cs)"

text \<open>
  The elements of a subtree in document order (the root of the subtree first), each with
  its path; \<open>p\<close> is the path of the subtree's root.
\<close>

fun walk :: "path \<Rightarrow> node \<Rightarrow> (path \<times> node) list"
  and walks :: "path \<Rightarrow> nat \<Rightarrow> node list \<Rightarrow> (path \<times> node) list" where
  "walk p (Text s) = []"
| "walk p (Element t a v c cs) = (p, Element t a v c cs) # walks p 0 cs"
| "walks p i [] = []"
| "walks p i (n # ns) = walk (p @ [i]) n @ walks p (Suc i) ns"

text \<open>
  The class list of an element: the \<^verbatim>\<open>class\<close> attribute split at ASCII white space.
\<close>

definition html_space :: "char \<Rightarrow> bool" where
  "html_space c \<longleftrightarrow> c \<in> set [CHR 0x09, CHR 0x0A, CHR 0x0C, CHR 0x0D, CHR 0x20]"

fun tokens :: "string \<Rightarrow> string \<Rightarrow> string list" where
  "tokens cur [] = (if cur = [] then [] else [cur])"
| "tokens cur (x # xs) =
     (if html_space x then (if cur = [] then tokens [] xs else cur # tokens [] xs)
      else tokens (cur @ [x]) xs)"

definition classList :: "node \<Rightarrow> string list" where
  "classList n = (case getAttribute n ''class'' of None \<Rightarrow> [] | Some v \<Rightarrow> tokens [] v)"

definition has_class :: "string \<Rightarrow> node \<Rightarrow> bool" where
  "has_class c n \<longleftrightarrow> c \<in> set (classList n)"

subsection \<open>The selectors of the source\<close>

text \<open>\<^verbatim>\<open>[email]\<close>\<close>

definition sel_email :: "node \<Rightarrow> bool" where
  "sel_email n \<longleftrightarrow> hasAttribute n ''email''"

text \<open>\<^verbatim>\<open>.go, .gD, .g2\<close>\<close>

definition sel_sender :: "node \<Rightarrow> bool" where
  "sel_sender n \<longleftrightarrow> has_class ''go'' n \<or> has_class ''gD'' n \<or> has_class ''g2'' n"

text \<open>\<^verbatim>\<open>[data-filter-id]\<close>\<close>

definition sel_filter_row :: "node \<Rightarrow> bool" where
  "sel_filter_row n \<longleftrightarrow> hasAttribute n ''data-filter-id''"

text \<open>\<^verbatim>\<open>label\<close>\<close>

definition sel_label :: "node \<Rightarrow> bool" where
  "sel_label n \<longleftrightarrow> tagName n = ''label''"

text \<open>\<^verbatim>\<open>.Tm.aeJ, .aKh\<close>\<close>

definition sel_settings :: "node \<Rightarrow> bool" where
  "sel_settings n \<longleftrightarrow> (has_class ''Tm'' n \<and> has_class ''aeJ'' n) \<or> has_class ''aKh'' n"

text \<open>\<^verbatim>\<open>button, a, span[role="link"], div[role="link"]\<close>\<close>

definition sel_create_candidates :: "node \<Rightarrow> bool" where
  "sel_create_candidates n \<longleftrightarrow>
     tagName n = ''button'' \<or> tagName n = ''a''
     \<or> (tagName n = ''span'' \<and> getAttribute n ''role'' = Some ''link'')
     \<or> (tagName n = ''div'' \<and> getAttribute n ''role'' = Some ''link'')"

text \<open>\<^verbatim>\<open>button, span[role="link"]\<close>\<close>

definition sel_button_link :: "node \<Rightarrow> bool" where
  "sel_button_link n \<longleftrightarrow>
     tagName n = ''button'' \<or> (tagName n = ''span'' \<and> getAttribute n ''role'' = Some ''link'')"

subsection \<open>Queries\<close>

text \<open>
  \<^verbatim>\<open>document.querySelectorAll(sel)\<close>: the matching elements of the document, in document
  order. \<^verbatim>\<open>el.querySelector(sel)\<close>: the first matching descendant of \<open>el\<close>, which is
  never \<open>el\<close> itself. \<^verbatim>\<open>document.getElementById(id)\<close>: the first element with that id.
\<close>

definition querySelectorAll :: "(node \<Rightarrow> bool) \<Rightarrow> node \<Rightarrow> (path \<times> node) list" where
  "querySelectorAll sel d = filter (\<lambda>(p, n). sel n) (walk [] d)"

definition querySelector :: "(node \<Rightarrow> bool) \<Rightarrow> node \<Rightarrow> node option" where
  "querySelector sel el = find sel (map snd (tl (walk [] el)))"

definition getElementById :: "node \<Rightarrow> string \<Rightarrow> (path \<times> node) option" where
  "getElementById d ident = find (\<lambda>(p, n). getAttribute n ''id'' = Some ident) (walk [] d)"

section \<open>Sender extraction (utils.ts)\<close>

text \<open>
  The three heuristics of one level of \<^verbatim>\<open>extractSenderFromElement\<close>; \<open>cur\<close> is the
  element the walk has reached. Each gives the address it returns, or \<open>None\<close> when the
  walk goes on.
\<close>

definition method1 :: "node \<Rightarrow> string option" where
  "method1 cur =
     (case querySelector sel_email cur of
        None \<Rightarrow> None
      | Some emailEl \<Rightarrow>
          (case getAttribute emailEl ''email'' of
             None \<Rightarrow> None
           | Some email \<Rightarrow> if email \<noteq> [] \<and> validateEmail email then Some email else None))"

definition method2 :: "node \<Rightarrow> string option" where
  "method2 cur =
     (if hasAttribute cur ''email''
      then (case getAttribute cur ''email'' of
              None \<Rightarrow> None
            | Some email \<Rightarrow> if email \<noteq> [] \<and> validateEmail email then Some email else None)
      else None)"

definition method3 :: "node \<Rightarrow> string option" where
  "method3 cur =
     (case querySelector sel_sender cur of
        None \<Rightarrow> None
      | Some senderEl \<Rightarrow> parse_sender_text (textContent senderEl))"

text \<open>
  The loop \<^verbatim>\<open>for (let i = 0; i < 15 && current; i++)\<close>. \<open>current\<close> is \<open>None\<close> for
  \<^verbatim>\<open>null\<close>; a path that leads to no element of the document ends the walk as well.
\<close>

function extractSender_loop :: "node \<Rightarrow> nat \<Rightarrow> path option \<Rightarrow> string option" where
  "extractSender_loop d i current =
     (if i < 15 then
        (case current of
           None \<Rightarrow> None
         | Some p \<Rightarrow>
             (case element_at d p of
                None \<Rightarrow> None
              | Some cur \<Rightarrow>
                  (case method1 cur of
                     Some email \<Rightarrow> Some email
                   | None \<Rightarrow>
                       (case method2 cur of
                          Some email \<Rightarrow> Some email
                        | None \<Rightarrow>
                            (case method3 cur of
                               Some extracted \<Rightarrow> Some extracted
                             | None \<Rightarrow> extractSender_loop d (Suc i) (parentElement p))))))
      else None)"
  by pat_completeness auto
termination
  by (relation "measure (\<lambda>(d, i, current). 15 - i)") auto

definition extractSenderFromElement :: "node \<Rightarrow> path \<Rightarrow> string option" where
  "extractSenderFromElement d element = extractSender_loop d 0 (Some element)"

text \<open>
  \<^verbatim>\<open>findInputByLabel\<close>. The result is the path of the input, or the warning the
  function writes to the console before it returns \<^verbatim>\<open>null\<close>. \<open>dq\<close> and \<open>sq\<close> are
  the double and the single quote of the messages.
\<close>

definition dq :: string where
  "dq = [CHR 0x22]"

definition sq :: string where
  "sq = [CHR 0x27]"

definition findInputByLabel :: "string \<Rightarrow> node \<Rightarrow> string + path" where
  "findInputByLabel labelText d =
     (let labels = map snd (querySelectorAll sel_label d);
          label = (case find (\<lambda>l. trim (textContent l) = labelText) labels of
                     Some l \<Rightarrow> Some l
                   | None \<Rightarrow>
                       find (\<lambda>l. js_includes (toLowerCase (textContent l)) (toLowerCase labelText))
                         labels)
      in case label of
           None \<Rightarrow>
             Inl (''[Gmail Auto-Label] Could not find label with text: '' @ dq @ labelText @ dq)
         | Some l \<Rightarrow>
             (case getAttribute l ''for'' of
                None \<Rightarrow>
                  Inl (''[Gmail Auto-Label] Label '' @ dq @ labelText @ dq
                       @ '' has no '' @ sq @ ''for'' @ sq @ '' attribute'')
              | Some inputId \<Rightarrow>
                  if inputId = [] then
                    Inl (''[Gmail Auto-Label] Label '' @ dq @ labelText @ dq
                         @ '' has no '' @ sq @ ''for'' @ sq @ '' attribute'')
                  else
                    (case getElementById d inputId of
                       None \<Rightarrow>
                         Inl (''[Gmail Auto-Label] Could not find input with id: ''
                              @ dq @ inputId @ dq)
                     | Some (p, input) \<Rightarrow> Inr p)))"

section \<open>The page and the host application\<close>

text \<open>
  What the script does to the page, in the order it does it: a click on an element, a
  write to the \<^verbatim>\<open>value\<close> of an input, an \<^verbatim>\<open>input\<close> event dispatched on an element, an
  assignment to \<^verbatim>\<open>window.location.hash\<close>, a timer wait of so many milliseconds, an
  \<^verbatim>\<open>alert\<close> and a \<^verbatim>\<open>prompt\<close>.
\<close>

datatype effect =
    Click path
  | SetValue path string
  | InputEvent path
  | SetHash string
  | Sleep nat
  | Alert string
  | Prompt string

datatype level = LogLevel | WarnLevel | ErrorLevel

datatype js_error = Error string | TypeError string

fun message :: "js_error \<Rightarrow> string" where
  "message (Error m) = m"
| "message (TypeError m) = m"

text \<open>
  The state of the page: the value \<^verbatim>\<open>window.location.hash\<close> reads, the document, the
  clock \<^verbatim>\<open>Date.now()\<close> in milliseconds, the effects so far and the console lines so far
  (both oldest first).
\<close>

record page =
  hash :: string
  doc :: node
  clock :: nat
  trace :: "effect list"
  console :: "(level \<times> string) list"

text \<open>
  What the script is given from outside: \<open>react\<close> is the host application, which
  re-renders the document when it is clicked, notified of an input, navigated or given
  time; \<open>METADATA_PREFIX\<close> is the constant of \<^verbatim>\<open>constants.ts\<close>; \<open>prompt_reply\<close> is what
  the user answers to the prompt (\<open>None\<close> when the prompt is cancelled).
\<close>

record env =
  react :: "effect \<Rightarrow> node \<Rightarrow> node"
  METADATA_PREFIX :: string
  prompt_reply :: "string option"

definition console_log :: "string \<Rightarrow> page \<Rightarrow> page" where
  "console_log m p = p\<lparr>console := console p @ [(LogLevel, m)]\<rparr>"

definition console_warn :: "string \<Rightarrow> page \<Rightarrow> page" where
  "console_warn m p = p\<lparr>console := console p @ [(WarnLevel, m)]\<rparr>"

definition console_error :: "string \<Rightarrow> page \<Rightarrow> page" where
  "console_error m p = p\<lparr>console := console p @ [(ErrorLevel, m)]\<rparr>"

definition alert :: "string \<Rightarrow> page \<Rightarrow> page" where
  "alert m p = p\<lparr>trace := trace p @ [Alert m]\<rparr>"

definition prompt :: "string \<Rightarrow> page \<Rightarrow> page" where
  "prompt m p = p\<lparr>trace := trace p @ [Prompt m]\<rparr>"

text \<open>An effect the host application sees and answers by re-rendering.\<close>

definition perform :: "env \<Rightarrow> effect \<Rightarrow> page \<Rightarrow> page" where
  "perform env e p = p\<lparr>doc := react env e (doc p), trace := trace p @ [e]\<rparr>"

definition click :: "env \<Rightarrow> path \<Rightarrow> page \<Rightarrow> page" where
  "click env el p = perform env (Click el) p"

definition dispatch_input :: "env \<Rightarrow> path \<Rightarrow> page \<Rightarrow> page" where
  "dispatch_input env el p = perform env (InputEvent el) p"

text \<open>
  A timer wait: virtual time, every timer fires exactly when it is due.
\<close>

definition sleep :: "env \<Rightarrow> nat \<Rightarrow> page \<Rightarrow> page" where
  "sleep env ms p = (perform env (Sleep ms) p)\<lparr>clock := clock p + ms\<rparr>"

text \<open>
  \<^verbatim>\<open>window.location.hash = v\<close>: the setter drops one leading \<^verbatim>\<open>#\<close>, and the getter
  returns the empty string for an empty fragment and \<^verbatim>\<open>#\<close> followed by the fragment
  otherwise (percent-encoding is not modelled).
\<close>

definition hash_of :: "string \<Rightarrow> string" where
  "hash_of v =
     (let fragment = (if v \<noteq> [] \<and> hd v = CHR ''#'' then tl v else v)
      in if fragment = [] then [] else CHR ''#'' # fragment)"

definition set_hash :: "env \<Rightarrow> string \<Rightarrow> page \<Rightarrow> page" where
  "set_hash env v p = (perform env (SetHash v) p)\<lparr>hash := hash_of v\<rparr>"

text \<open>
  \<^verbatim>\<open>input.value = v\<close> writes the property and fires no event, so the host application
  does not see it. \<open>value_at\<close> reads the property: \<open>None\<close> is \<^verbatim>\<open>undefined\<close>.
\<close>

fun set_value :: "path \<Rightarrow> string \<Rightarrow> node \<Rightarrow> node" where
  "set_value [] w (Text s) = Text s"
| "set_value [] w (Element t a v c cs) = Element t a (Some w) c cs"
| "set_value (i # p) w (Text s) = Text s"
| "set_value (i # p) w (Element t a v c cs) =
     (if i < length cs then Element t a v c (cs[i := set_value p w (cs ! i)])
      else Element t a v c cs)"

definition write_value :: "path \<Rightarrow> string \<Rightarrow> page \<Rightarrow> page" where
  "write_value el w p = p\<lparr>doc := set_value el w (doc p), trace := trace p @ [SetValue el w]\<rparr>"

definition value_at :: "node \<Rightarrow> path \<Rightarrow> string option" where
  "value_at d el = (case node_at el d of Some n \<Rightarrow> input_value n | None \<Rightarrow> None)"

definition checked_at :: "node \<Rightarrow> path \<Rightarrow> bool" where
  "checked_at d el = (case node_at el d of Some n \<Rightarrow> input_checked n | None \<Rightarrow> False)"

text \<open>\<^verbatim>\<open>findInputByLabel\<close> on the page, with its warning written to the console.\<close>

definition find_input :: "string \<Rightarrow> page \<Rightarrow> path option \<times> page" where
  "find_input labelText p =
     (case findInputByLabel labelText (doc p) of
        Inl warning \<Rightarrow> (None, console_warn warning p)
      | Inr el \<Rightarrow> (Some el, p))"

text \<open>
  \<^verbatim>\<open>Array.from(document.querySelectorAll(sel)).find(el => el.textContent?.includes(text))\<close>
\<close>

definition find_by_text :: "(node \<Rightarrow> bool) \<Rightarrow> string \<Rightarrow> node \<Rightarrow> path option" where
  "find_by_text sel text d =
     map_option fst (find (\<lambda>(p, el). js_includes (textContent el) text) (querySelectorAll sel d))"

section \<open>The workflow (index.ts)\<close>

subsection \<open>Polling waits\<close>

text \<open>
  \<^verbatim>\<open>navigateToFiltersSettings\<close>: an interval timer of 200 ms looks for the settings
  element and, once it is there, resolves 1000 ms later; a timeout of 10000 ms resolves
  in any case. \<open>start\<close> is the clock when both timers were set. The timeout was set before
  the interval's tick at 10000 ms was scheduled, so it fires first.
\<close>

function nav_poll :: "env \<Rightarrow> nat \<Rightarrow> page \<Rightarrow> page" where
  "nav_poll env start p =
     (let p1 = sleep env 200 p; elapsed = clock p1 - start
      in if 10000 \<le> elapsed then p1
         else if querySelectorAll sel_settings (doc p1) \<noteq> []
              then sleep env (min 1000 (10000 - elapsed)) p1
              else nav_poll env start p1)"
  by pat_completeness auto
termination
  by (relation "measure (\<lambda>(env, start, p). start + 10000 - clock p)")
     (auto simp: sleep_def perform_def)

definition navigateToFiltersSettings :: "env \<Rightarrow> page \<Rightarrow> page" where
  "navigateToFiltersSettings env p =
     (let p1 = console_log ''[Gmail Auto-Label] Navigating to filters settings...'' p;
          p2 = set_hash env ''settings/filters'' p1
      in nav_poll env (clock p2) p2)"

text \<open>
  \<^verbatim>\<open>waitForLabels\<close>: an interval timer of 100 ms; a tick resolves when a label is in the
  document and otherwise rejects once more than \<open>timeout\<close> ms have passed.
\<close>

function waitForLabels_poll :: "env \<Rightarrow> nat \<Rightarrow> nat \<Rightarrow> page \<Rightarrow> (js_error \<times> page) + page" where
  "waitForLabels_poll env timeout start p =
     (let p1 = sleep env 100 p
      in if querySelectorAll sel_label (doc p1) \<noteq> [] then Inr p1
         else if clock p1 - start > timeout
              then Inl (Error ''Timeout waiting for form labels'', p1)
              else waitForLabels_poll env timeout start p1)"
  by pat_completeness auto
termination
  by (relation "measure (\<lambda>(env, timeout, start, p). Suc timeout + start - clock p)")
     (auto simp: sleep_def perform_def)

definition waitForLabels :: "env \<Rightarrow> nat \<Rightarrow> page \<Rightarrow> (js_error \<times> page) + page" where
  "waitForLabels env timeout p = waitForLabels_poll env timeout (clock p) p"

subsection \<open>Finding the rule of a label\<close>

text \<open>
  \<^verbatim>\<open>findFilterByMetadata\<close>: the first row of \<^verbatim>\<open>[data-filter-id]\<close> whose text contains
  the prefix followed by the label name.
\<close>

definition findFilterByMetadata :: "env \<Rightarrow> string \<Rightarrow> node \<Rightarrow> path option" where
  "findFilterByMetadata env labelName d =
     (let metadataString = METADATA_PREFIX env @ labelName;
          filterRows = querySelectorAll sel_filter_row d
      in map_option fst (find (\<lambda>(p, row). js_includes (textContent row) metadataString) filterRows))"

subsection \<open>Creating a rule\<close>

definition buttonTexts :: "string list" where
  "buttonTexts = [''Create a new filter'', ''Create new filter'', ''New filter'', ''Create filter'']"

text \<open>
  The loop over \<open>buttonTexts\<close> of \<^verbatim>\<open>createNewFilter\<close>: for each text in turn, the first
  candidate element whose text contains it; the loop stops at the first text that finds
  one.
\<close>

fun find_create_button :: "string list \<Rightarrow> node \<Rightarrow> path option" where
  "find_create_button [] d = None"
| "find_create_button (text # texts) d =
     (case find_by_text sel_create_candidates text d of
        Some createFilterBtn \<Rightarrow> Some createFilterBtn
      | None \<Rightarrow> find_create_button texts d)"

definition createNewFilter :: "env \<Rightarrow> string \<Rightarrow> string \<Rightarrow> page \<Rightarrow> (js_error \<times> page) + page" where
  "createNewFilter env senderEmail labelName p =
     (let p1 = console_log (''[Gmail Auto-Label] Looking for '' @ sq @ ''Create filter'' @ sq
                            @ '' button...'') p
      in case find_create_button buttonTexts (doc p1) of
           None \<Rightarrow>
             Inl (Error (''Could not find '' @ sq @ ''Create a new filter'' @ sq @ '' button''), p1)
         | Some createFilterBtn \<Rightarrow>
             (let p2 = console_log ''[Gmail Auto-Label] Clicked create filter button''
                         (click env createFilterBtn p1)
              in case waitForLabels env 5000 p2 of
                   Inl failure \<Rightarrow> Inl failure
                 | Inr p3 \<Rightarrow>
                     (case find_input ''From'' p3 of
                        (None, p4) \<Rightarrow>
                          Inl (Error (''Could not find '' @ sq @ ''From'' @ sq @ '' input field''), p4)
                      | (Some fromInput, p4) \<Rightarrow>
                          (let p5 = console_log ''[Gmail Auto-Label] Filled in From field''
                                      (dispatch_input env fromInput
                                        (write_value fromInput senderEmail p4));
                               (doesntHaveInput, p6) = find_input (''Doesn'' @ sq @ ''t have'') p5;
                               p7 = (case doesntHaveInput of
                                       None \<Rightarrow> p6
                                     | Some i \<Rightarrow>
                                         console_log ''[Gmail Auto-Label] Added metadata''
                                           (dispatch_input env i
                                             (write_value i (METADATA_PREFIX env @ labelName) p6)));
                               p8 = sleep env 300 p7
                           in case find_by_text sel_button_link ''Create filter'' (doc p8) of
                                None \<Rightarrow> Inl (Error ''Could not find proceed button'', p8)
                              | Some proceedBtn \<Rightarrow>
                                  (let p9 = sleep env 800
                                              (console_log
                                                ''[Gmail Auto-Label] Proceeding to actions step...''
                                                (click env proceedBtn p8))
                                   in case find_input ''Apply the label:'' p9 of
                                        (None, p10) \<Rightarrow>
                                          Inl (Error (''Could not find '' @ sq @ ''Apply the label''
                                                      @ sq @ '' checkbox''), p10)
                                      | (Some applyLabelCheckbox, p10) \<Rightarrow>
                                          (let p11 =
                                                 (if \<not> checked_at (doc p10) applyLabelCheckbox
                                                  then sleep env 500
                                                         (console_log
                                                           (''[Gmail Auto-Label] Checked '' @ sq
                                                            @ ''Apply label'' @ sq @ '' checkbox'')
                                                           (click env applyLabelCheckbox p10))
                                                  else p10);
                                               p12 = console_log
                                                       (''[Gmail Auto-Label] NOTE: You need to manually select the label ''
                                                        @ dq @ labelName @ dq
                                                        @ '' and click Create filter'') p11
                                           in Inr (alert
                                                    (''Please:'' @ [CHR 0x0A]
                                                     @ ''1. Select the label '' @ dq @ labelName @ dq
                                                     @ '' from the dropdown'' @ [CHR 0x0A]
                                                     @ ''2. Click the '' @ dq @ ''Create filter'' @ dq
                                                     @ '' button to finish'') p12)))))))"

subsection \<open>Updating a rule\<close>

text \<open>
  \<^verbatim>\<open>updateExistingFilter\<close>. \<^verbatim>\<open>findInputByLabel\<close> returns whatever element has the id
  the label names; when that element has no \<^verbatim>\<open>value\<close>, the call
  \<^verbatim>\<open>currentValue.includes\<close> throws a \<^verbatim>\<open>TypeError\<close> (with the message of the V8 engine).
\<close>

definition updateExistingFilter :: "env \<Rightarrow> path \<Rightarrow> string \<Rightarrow> page \<Rightarrow> (js_error \<times> page) + page" where
  "updateExistingFilter env filterElement newSenderEmail p =
     (let p1 = sleep env 1000 (click env filterElement p)
      in case find_input ''From'' p1 of
           (None, p2) \<Rightarrow> Inl (Error ''Could not find From input field'', p2)
         | (Some fromInput, p2) \<Rightarrow>
             (case value_at (doc p2) fromInput of
                None \<Rightarrow>
                  Inl (TypeError (''Cannot read properties of undefined (reading '' @ sq
                                  @ ''includes'' @ sq @ '')''), p2)
              | Some currentValue \<Rightarrow>
                  if js_includes currentValue newSenderEmail then
                    (let p3 = console_log ''[Gmail Auto-Label] Sender already in filter'' p2
                     in case find_by_text sel_button_link ''Cancel'' (doc p3) of
                          Some cancelBtn \<Rightarrow> Inr (click env cancelBtn p3)
                        | None \<Rightarrow> Inr p3)
                  else
                    (let p3 = console_log ''[Gmail Auto-Label] Appended sender to filter''
                                (dispatch_input env fromInput
                                  (write_value fromInput (currentValue @ '' | '' @ newSenderEmail) p2));
                         p4 = sleep env 500 p3
                     in case find_by_text sel_button_link ''Update filter'' (doc p4) of
                          Some updateBtn \<Rightarrow>
                            Inr (sleep env 500
                                  (console_log ''[Gmail Auto-Label] Clicked Update filter button''
                                    (click env updateBtn p4)))
                        | None \<Rightarrow> Inr p4)))"

subsection \<open>The orchestrator\<close>

text \<open>
  \<^verbatim>\<open>createOrUpdateFilter\<close>: the body of the \<^verbatim>\<open>try\<close> block ends with the assignment of
  the original hash; the \<^verbatim>\<open>catch\<close> block writes to the console and throws the error
  again.
\<close>

definition createOrUpdateFilter :: "env \<Rightarrow> string \<Rightarrow> string \<Rightarrow> page \<Rightarrow> (js_error \<times> page) + page" where
  "createOrUpdateFilter env senderEmail labelName p =
     (let originalHash = hash p;
          p1 = navigateToFiltersSettings env p;
          done = (case findFilterByMetadata env labelName (doc p1) of
                    Some existingFilter \<Rightarrow>
                      updateExistingFilter env existingFilter senderEmail
                        (console_log ''[Gmail Auto-Label] Found existing filter, updating...'' p1)
                  | None \<Rightarrow>
                      createNewFilter env senderEmail labelName
                        (console_log ''[Gmail Auto-Label] Creating new filter...'' p1))
      in case done of
           Inr p2 \<Rightarrow> Inr (set_hash env originalHash p2)
         | Inl (err, p2) \<Rightarrow>
             Inl (err, console_error (''[Gmail Auto-Label] Filter operation failed: '' @ message err) p2))"

text \<open>
  \<^verbatim>\<open>handleAutoLabelClick\<close>; \<open>rightClickedElement\<close> is the global of that name. The check
  mark that opens the final message is a code unit above 255 and is left out.
\<close>

definition handleAutoLabelClick :: "env \<Rightarrow> path option \<Rightarrow> page \<Rightarrow> page" where
  "handleAutoLabelClick env rightClickedElement p =
     (case rightClickedElement of
        None \<Rightarrow> console_error ''[Gmail Auto-Label] No element was right-clicked'' p
      | Some element \<Rightarrow>
          (case extractSenderFromElement (doc p) element of
             None \<Rightarrow>
               alert ''Could not detect sender email. Please try right-clicking directly on the email.''
                 (console_error ''[Gmail Auto-Label] Could not detect sender email'' p)
           | Some senderEmail \<Rightarrow>
               (let p1 = console_log (''[Gmail Auto-Label] Found sender: '' @ senderEmail) p;
                    p2 = prompt (''Enter the label name to auto-apply for emails from:''
                                 @ [CHR 0x0A] @ senderEmail) p1;
                    cancelled =
                      console_log ''[Gmail Auto-Label] User cancelled or entered empty label name'' p2
                in case prompt_reply env of
                     None \<Rightarrow> cancelled
                   | Some labelName \<Rightarrow>
                       if labelName = [] \<or> trim labelName = [] then cancelled
                       else
                         (let p3 = console_log
                                     (''[Gmail Auto-Label] Creating filter for '' @ senderEmail
                                      @ '' with label '' @ dq @ labelName @ dq) p2
                          in case createOrUpdateFilter env senderEmail (trim labelName) p3 of
                               Inr p4 \<Rightarrow>
                                 alert ('' Added filter for '' @ senderEmail @ '' with label ''
                                        @ dq @ labelName @ dq)
                                   (console_log
                                     ''[Gmail Auto-Label] Filter created/updated successfully!'' p4)
                             | Inl (err, p4) \<Rightarrow>
                                 alert (''Failed to create filter: '' @ message err)
                                   (console_error (''[Gmail Auto-Label] Error: '' @ message err) p4)))))"

section \<open>Notions used in the statements\<close>

subsection \<open>Regular expressions, declaratively\<close>

text \<open>
  \<open>fits p i s gs\<close>: the segments \<open>gs\<close>, one for each item of \<open>p\<close>, are a way to match
  \<open>p\<close> against a prefix of \<open>s\<close> from position \<open>i\<close> of the input. This is the
  declarative reading of the regular expression, against which the matcher is checked.
\<close>

fun fits :: "item list \<Rightarrow> nat \<Rightarrow> string \<Rightarrow> string list \<Rightarrow> bool" where
  "fits [] i s gs = (gs = [])"
| "fits (it # r) i s [] = False"
| "fits (Bos # r) i s (g # gs) = (g = [] \<and> i = 0 \<and> fits r i s gs)"
| "fits (Eos # r) i s (g # gs) = (g = [] \<and> s = [] \<and> fits r i s gs)"
| "fits (One c # r) i s (g # gs) =
     (case s of [] \<Rightarrow> False | x # xs \<Rightarrow> g = [x] \<and> c x \<and> fits r (Suc i) xs gs)"
| "fits (Many1 c # r) i s (g # gs) =
     (g \<noteq> [] \<and> (\<forall>x \<in> set g. c x) \<and> prefix g s
      \<and> fits r (i + length g) (drop (length g) s) gs)"

text \<open>
  \<open>bracket_segment s pre g post\<close>: in \<open>s\<close>, after \<open>pre\<close>, stands an angle-bracket
  segment with the non-empty contents \<open>g\<close>, which end at the first \<^verbatim>\<open>>\<close>.
\<close>

definition bracket_segment :: "string \<Rightarrow> string \<Rightarrow> string \<Rightarrow> string \<Rightarrow> bool" where
  "bracket_segment s pre g post \<longleftrightarrow>
     s = pre @ ''<'' @ g @ ''>'' @ post \<and> g \<noteq> [] \<and> CHR ''>'' \<notin> set g"

subsection \<open>The sender walk as the specification words it\<close>

text \<open>
  The walk of \<^verbatim>\<open>extractSenderFromElement\<close>, as the specification words it. The
  levels are the origin and its ancestors, nearest first. At a level the candidates
  are, in this order: the address attribute of the first descendant that has one, the
  level's own address attribute, and the address parsed from the text of the first
  sender-display descendant. The result is the first candidate of the first 15 levels
  that passes validation.
\<close>

function ancestors_from :: "path \<Rightarrow> path list" where
  "ancestors_from p = p # (case parentElement p of None \<Rightarrow> [] | Some q \<Rightarrow> ancestors_from q)"
  by pat_completeness auto
termination
  by (relation "measure length") (auto simp: parentElement_def split: if_splits)

definition candidate1 :: "node \<Rightarrow> string option" where
  "candidate1 cur =
     (case querySelector sel_email cur of
        None \<Rightarrow> None
      | Some emailEl \<Rightarrow> getAttribute emailEl ''email'')"

definition candidate2 :: "node \<Rightarrow> string option" where
  "candidate2 cur = getAttribute cur ''email''"

definition candidate3 :: "node \<Rightarrow> string option" where
  "candidate3 cur =
     (case querySelector sel_sender cur of
        None \<Rightarrow> None
      | Some senderEl \<Rightarrow> Some (extractEmailAddress (textContent senderEl)))"

definition level_candidates :: "node \<Rightarrow> path \<Rightarrow> string list" where
  "level_candidates d q =
     (case element_at d q of
        None \<Rightarrow> []
      | Some cur \<Rightarrow> List.map_filter id [candidate1 cur, candidate2 cur, candidate3 cur])"

definition extractSender_spec :: "node \<Rightarrow> path \<Rightarrow> string option" where
  "extractSender_spec d origin =
     find validateEmail (concat (map (level_candidates d) (take 15 (ancestors_from origin))))"

text \<open>
  The equations of the loops are recursive without a pattern; the proofs apply them
  one step at a time.
\<close>

declare ancestors_from.simps [simp del]

declare extractSender_loop.simps [simp del]

declare nav_poll.simps [simp del]

declare waitForLabels_poll.simps [simp del]

subsection \<open>Example pages\<close>

text \<open>A message row of the inbox, and the element the user right-clicks in it.\<close>

definition mail_doc :: node where
  "mail_doc =
     Element ''html'' [] None False
       [Element ''div'' [(''class'', ''zA'')] None False
          [Element ''span'' [(''class'', ''yP gD'')] None False [Text ''Jane Doe <jane@example.com>''],
           Element ''span'' [(''class'', ''bog'')] None False [Text ''Weekly news'']]]"

definition mail_origin :: path where
  "mail_origin = [0, 1]"

text \<open>
  A settings page with two rules, the second of which carries the marker of the label
  \<^verbatim>\<open>Newsletter\<close>, and with the edit form of that rule; a host application that never
  re-renders; and a page with two candidates for the create-new-rule affordance.
\<close>

definition settings_doc :: node where
  "settings_doc =
     Element ''html'' [] None False
       [Element ''div'' [(''class'', ''aKh'')] None False
          [Element ''div'' [(''data-filter-id'', ''1'')] None False
             [Text ''Matches: from:(boss@example.com) Do this: Star it''],
           Element ''div'' [(''data-filter-id'', ''2'')] None False
             [Text ''Matches: from:(old@example.com) -{auto-label:Newsletter} Do this: Apply label''],
           Element ''label'' [(''for'', ''f1'')] None False [Text ''From''],
           Element ''input'' [(''id'', ''f1'')] (Some ''old@example.com'') False [],
           Element ''button'' [] None False [Text ''Cancel''],
           Element ''button'' [] None False [Text ''Update filter'']]]"

definition static_env :: env where
  "static_env = \<lparr>react = (\<lambda>e d. d), METADATA_PREFIX = ''auto-label:'', prompt_reply = None\<rparr>"


subsection \<open>Effects of the update path\<close>

text \<open>The writes, change notifications and clicks among the effects.\<close>

fun is_write :: "effect \<Rightarrow> bool" where
  "is_write (SetValue el w) = True"
| "is_write e = False"

fun is_notification :: "effect \<Rightarrow> bool" where
  "is_notification (InputEvent el) = True"
| "is_notification e = False"

fun is_click :: "effect \<Rightarrow> bool" where
  "is_click (Click el) = True"
| "is_click e = False"

text \<open>The example documents as pages, and the settings page after one update.\<close>

definition settings_page :: page where
  "settings_page =
     \<lparr>hash = ''#settings/filters'', doc = settings_doc, clock = 0, trace = [], console = []\<rparr>"

definition mail_page :: page where
  "mail_page = \<lparr>hash = ''#inbox'', doc = mail_doc, clock = 0, trace = [], console = []\<rparr>"


subsection \<open>Results of a run\<close>

text \<open>The error a run has thrown, if any, and the page it has left behind.\<close>

fun thrown :: "(js_error \<times> page) + page \<Rightarrow> js_error option" where
  "thrown (Inl (err, q)) = Some err"
| "thrown (Inr q) = None"

fun final_page :: "(js_error \<times> page) + page \<Rightarrow> page" where
  "final_page (Inl (err, q)) = q"
| "final_page (Inr q) = q"

subsection \<open>A host application that keeps the From field\<close>




text \<open>
  The settings page whose edit form has no update affordance, and a host application
  that opens the edit form afresh, with the value of the stored rule, whenever the rule
  row is clicked.
\<close>

definition no_update_doc :: node where
  "no_update_doc =
     Element ''html'' [] None False
       [Element ''div'' [(''class'', ''aKh'')] None False
          [Element ''div'' [(''data-filter-id'', ''1'')] None False
             [Text ''Matches: from:(boss@example.com) Do this: Star it''],
           Element ''div'' [(''data-filter-id'', ''2'')] None False
             [Text ''Matches: from:(old@example.com) -{auto-label:Newsletter} Do this: Apply label''],
           Element ''label'' [(''for'', ''f1'')] None False [Text ''From''],
           Element ''input'' [(''id'', ''f1'')] (Some ''old@example.com'') False [],
           Element ''button'' [] None False [Text ''Cancel''],
           Element ''button'' [] None False [Text ''Continue'']]]"

definition no_update_page :: page where
  "no_update_page =
     \<lparr>hash = ''#settings/filters'', doc = no_update_doc, clock = 0, trace = [], console = []\<rparr>"




section \<open>The matcher against the declarative reading\<close>

lemma rmatch_sound: "rmatch p i s = Some gs \<Longrightarrow> fits p i s gs"
proof (induction p i s arbitrary: gs rule: rmatch.induct)
  case (7 c r i x xs)
  show ?case
  proof (cases "rmatch (Many1 c # r) (Suc i) xs")
    case None
    with 7 show ?thesis by (auto split: if_splits)
  next
    case (Some hs)
    show ?thesis
    proof (cases hs)
      case Nil
      with Some 7 show ?thesis by (auto split: if_splits)
    next
      case (Cons h hs')
      with Some 7 show ?thesis by (auto split: if_splits)
    qed
  qed
qed (auto split: if_splits)

lemma rmatch_complete: "fits p i s gs \<Longrightarrow> rmatch p i s \<noteq> None"
proof (induction p i s arbitrary: gs rule: rmatch.induct)
  case (1 i s)
  then show ?case by simp
next
  case (2 r i s)
  then show ?case by (cases gs) auto
next
  case (3 r i s)
  then show ?case by (cases gs) auto
next
  case (4 c r i)
  then show ?case by (cases gs) auto
next
  case (5 c r i x xs)
  then show ?case by (cases gs) auto
next
  case (6 c r i)
  then show ?case by (cases gs) auto
next
  case (7 c r i x xs)
  from "7.prems" obtain g gs' where gs: "gs = g # gs'" by (cases gs) auto
  with "7.prems" have g: "g \<noteq> []" "\<forall>y \<in> set g. c y" "prefix g (x # xs)"
    and rest: "fits r (i + length g) (drop (length g) (x # xs)) gs'" by auto
  from g obtain g' where g': "g = x # g'" "prefix g' xs" by (cases g) auto
  with g have cx: "c x" by simp
  show ?case
  proof (cases "rmatch (Many1 c # r) (Suc i) xs")
    case (Some hs)
    then show ?thesis using cx rmatch_sound[OF Some] by (cases hs) (auto split: option.splits)
  next
    case None
    have "g' = []"
    proof (rule ccontr)
      assume "g' \<noteq> []"
      with g g' rest have "fits (Many1 c # r) (Suc i) xs (g' # gs')" by simp
      from "7.IH"(1)[OF cx this] None show False by simp
    qed
    with g' rest have "fits r (Suc i) xs gs'" by simp
    from "7.IH"(2)[OF cx _ this] None have "rmatch r (Suc i) xs \<noteq> None" by simp
    with cx None show ?thesis by auto
  qed
qed

lemma fits_length: "fits p i s gs \<Longrightarrow> length gs = length p"
  by (induction p i s gs rule: fits.induct) (auto split: list.splits)

lemma fits_prefix: "fits p i s gs \<Longrightarrow> prefix (concat gs) s"
proof (induction p i s gs rule: fits.induct)
  case (6 c r i s g gs)
  then have "prefix g s" "prefix (concat gs) (drop (length g) s)" by auto
  then show ?case by (auto simp: prefix_def)
qed (auto split: list.splits)

lemma rsearch_first:
  "rsearch p i s = Some gs \<Longrightarrow>
     \<exists>k \<le> length s. rmatch p (i + k) (drop k s) = Some gs
       \<and> (\<forall>j < k. rmatch p (i + j) (drop j s) = None)"
proof (induction p i s rule: rsearch.induct)
  case (1 p i)
  then show ?case by simp
next
  case (2 p i x xs)
  show ?case
  proof (cases "rmatch p i (x # xs)")
    case (Some hs)
    with 2 have "rmatch p (i + 0) (drop 0 (x # xs)) = Some gs" by simp
    then show ?thesis by blast
  next
    case None
    with 2 obtain k where k: "k \<le> length xs" "rmatch p (Suc i + k) (drop k xs) = Some gs"
      "\<forall>j < k. rmatch p (Suc i + j) (drop j xs) = None" by auto
    have "\<forall>j < Suc k. rmatch p (i + j) (drop j (x # xs)) = None"
    proof (intro allI impI)
      fix j assume "j < Suc k"
      then show "rmatch p (i + j) (drop j (x # xs)) = None"
        using None k(3) by (cases j) auto
    qed
    with k show ?thesis by (intro exI[of _ "Suc k"]) auto
  qed
qed

lemma rsearch_found:
  "k \<le> length s \<Longrightarrow> rmatch p (i + k) (drop k s) \<noteq> None \<Longrightarrow> rsearch p i s \<noteq> None"
proof (induction p i s arbitrary: k rule: rsearch.induct)
  case (1 p i)
  then show ?case by simp
next
  case (2 p i x xs)
  show ?case
  proof (cases "rmatch p i (x # xs)")
    case (Some hs)
    then show ?thesis by simp
  next
    case None
    with "2.prems" obtain k' where "k = Suc k'" by (cases k) auto
    with "2.prems" "2.IH"[OF None, of k'] None show ?thesis by simp
  qed
qed

lemma many1_stop: "rest = [] \<or> \<not> c (hd rest) \<Longrightarrow> rmatch (Many1 c # r) i rest = None"
  by (cases rest) auto

lemma many1_run:
  "g \<noteq> [] \<Longrightarrow> \<forall>x \<in> set g. c x \<Longrightarrow> rest = [] \<or> \<not> c (hd rest) \<Longrightarrow>
   rmatch r (i + length g) rest = Some gs \<Longrightarrow>
     rmatch (Many1 c # r) i (g @ rest) = Some (g # gs)"
proof (induction g arbitrary: i)
  case Nil
  then show ?case by simp
next
  case (Cons x g)
  show ?case
  proof (cases "g = []")
    case True
    with Cons.prems many1_stop[of rest c r "Suc i"] show ?thesis by simp
  next
    case False
    with Cons have "rmatch (Many1 c # r) (Suc i) (g @ rest) = Some (g # gs)" by simp
    with Cons.prems show ?thesis by simp
  qed
qed

lemma fits_bracket:
  "fits bracket_re i t gs \<longleftrightarrow>
     (\<exists>g post. t = ''<'' @ g @ ''>'' @ post \<and> g \<noteq> [] \<and> CHR ''>'' \<notin> set g
        \<and> gs = [''<'', g, ''>''])"
proof
  assume f: "fits bracket_re i t gs"
  then have "length gs = 3" by (auto dest: fits_length simp: bracket_re_def)
  then obtain a g b where gs: "gs = [a, g, b]"
    by (cases gs; cases "tl gs"; cases "tl (tl gs)") auto
  from f gs obtain t1 where t1: "t = CHR ''<'' # t1" "a = ''<''"
    and f1: "fits [Many1 (\<lambda>c. c \<noteq> CHR ''>''), One (\<lambda>c. c = CHR ''>'')] (Suc i) t1 [g, b]"
    by (cases t) (auto simp: bracket_re_def)
  from f1 have g: "g \<noteq> []" "CHR ''>'' \<notin> set g" "prefix g t1"
    and f2: "fits [One (\<lambda>c. c = CHR ''>'')] (Suc i + length g) (drop (length g) t1) [b]"
    by auto
  from g(3) obtain t2 where t2: "t1 = g @ t2" by (auto simp: prefix_def)
  with f2 obtain post where "t2 = CHR ''>'' # post" "b = ''>''"
    by (cases t2) auto
  with t1 t2 g gs show "\<exists>g post. t = ''<'' @ g @ ''>'' @ post \<and> g \<noteq> [] \<and> CHR ''>'' \<notin> set g
        \<and> gs = [''<'', g, ''>'']" by simp
next
  assume "\<exists>g post. t = ''<'' @ g @ ''>'' @ post \<and> g \<noteq> [] \<and> CHR ''>'' \<notin> set g
        \<and> gs = [''<'', g, ''>'']"
  then show "fits bracket_re i t gs" by (auto simp: bracket_re_def)
qed

lemma takeWhile_until_gt:
  "CHR ''>'' \<notin> set g \<Longrightarrow> takeWhile (\<lambda>c. c \<noteq> CHR ''>'') (g @ CHR ''>'' # post) = g"
  by (induction g) auto

lemma until_gt_unique:
  assumes "g @ CHR ''>'' # post = g' @ CHR ''>'' # post'"
    and "CHR ''>'' \<notin> set g" and "CHR ''>'' \<notin> set g'"
  shows "g = g'"
  using takeWhile_until_gt[OF assms(2), of post] takeWhile_until_gt[OF assms(3), of post'] assms(1)
  by simp

lemma bracket_match_iff: "rmatch bracket_re i t = Some gs \<longleftrightarrow> fits bracket_re i t gs"
proof
  assume "rmatch bracket_re i t = Some gs"
  then show "fits bracket_re i t gs" by (rule rmatch_sound)
next
  assume f: "fits bracket_re i t gs"
  then obtain hs where hs: "rmatch bracket_re i t = Some hs"
    using rmatch_complete by blast
  then have "fits bracket_re i t hs" by (rule rmatch_sound)
  with f have "hs = gs"
    unfolding fits_bracket by (auto dest: until_gt_unique)
  with hs show "rmatch bracket_re i t = Some gs" by simp
qed

lemma bracket_segment_match:
  assumes "bracket_segment s pre g post"
  shows "length pre \<le> length s"
    and "rmatch bracket_re (length pre) (drop (length pre) s) = Some [''<'', g, ''>'']"
proof -
  from assms have s: "s = pre @ ''<'' @ g @ ''>'' @ post" and g: "g \<noteq> []" "CHR ''>'' \<notin> set g"
    by (auto simp: bracket_segment_def)
  from s show "length pre \<le> length s" by simp
  from s have "drop (length pre) s = ''<'' @ g @ ''>'' @ post" by simp
  with g show "rmatch bracket_re (length pre) (drop (length pre) s) = Some [''<'', g, ''>'']"
    unfolding bracket_match_iff fits_bracket by blast
qed

lemma rsearch_Bos_later: "0 < i \<Longrightarrow> rsearch (Bos # r) i s = None"
  by (induction s arbitrary: i) auto

lemma rsearch_Bos: "rsearch (Bos # r) 0 s = rmatch (Bos # r) 0 s"
  by (cases s) (auto simp: rsearch_Bos_later split: option.splits)

lemma fits_email:
  "fits email_re 0 s gs \<longleftrightarrow>
     (\<exists>a b c. s = a @ ''@'' @ b @ ''.'' @ c \<and> a \<noteq> [] \<and> b \<noteq> [] \<and> c \<noteq> []
        \<and> (\<forall>x \<in> set a. not_space_at x) \<and> (\<forall>x \<in> set b. not_space_at x)
        \<and> (\<forall>x \<in> set c. not_space_at x)
        \<and> gs = [[], a, ''@'', b, ''.'', c, []])"
proof
  assume f: "fits email_re 0 s gs"
  then have "length gs = 7" by (auto dest: fits_length simp: email_re_def)
  then obtain g0 a g2 b g4 c g6 where gs: "gs = [g0, a, g2, b, g4, c, g6]"
    by (auto simp: length_Suc_conv eval_nat_numeral)
  from f gs have g0: "g0 = []"
    and f1: "fits [Many1 not_space_at, One (\<lambda>c. c = CHR ''@''), Many1 not_space_at,
      One (\<lambda>c. c = CHR ''.''), Many1 not_space_at, Eos] 0 s [a, g2, b, g4, c, g6]"
    by (auto simp: email_re_def)
  from f1 obtain s1 where a: "a \<noteq> []" "\<forall>x \<in> set a. not_space_at x" "s = a @ s1"
    and f2: "fits [One (\<lambda>c. c = CHR ''@''), Many1 not_space_at,
      One (\<lambda>c. c = CHR ''.''), Many1 not_space_at, Eos] (length a) s1 [g2, b, g4, c, g6]"
    by (auto simp: prefix_def)
  from f2 obtain s2 where g2: "g2 = ''@''" "s1 = CHR ''@'' # s2"
    and f3: "fits [Many1 not_space_at, One (\<lambda>c. c = CHR ''.''), Many1 not_space_at, Eos]
       (Suc (length a)) s2 [b, g4, c, g6]"
    by (cases s1) auto
  from f3 obtain s3 where b: "b \<noteq> []" "\<forall>x \<in> set b. not_space_at x" "s2 = b @ s3"
    and f4: "fits [One (\<lambda>c. c = CHR ''.''), Many1 not_space_at, Eos]
       (Suc (length a) + length b) s3 [g4, c, g6]"
    by (auto simp: prefix_def)
  from f4 obtain s4 where g4: "g4 = ''.''" "s3 = CHR ''.'' # s4"
    and f5: "fits [Many1 not_space_at, Eos] (Suc (Suc (length a) + length b)) s4 [c, g6]"
    by (cases s3) auto
  from f5 have c: "c \<noteq> []" "\<forall>x \<in> set c. not_space_at x" "s4 = c" "g6 = []"
    by (auto simp: prefix_def)
  from a b c g0 g2 g4 gs
  show "\<exists>a b c. s = a @ ''@'' @ b @ ''.'' @ c \<and> a \<noteq> [] \<and> b \<noteq> [] \<and> c \<noteq> []
        \<and> (\<forall>x \<in> set a. not_space_at x) \<and> (\<forall>x \<in> set b. not_space_at x)
        \<and> (\<forall>x \<in> set c. not_space_at x)
        \<and> gs = [[], a, ''@'', b, ''.'', c, []]"
    by auto
next
  assume "\<exists>a b c. s = a @ ''@'' @ b @ ''.'' @ c \<and> a \<noteq> [] \<and> b \<noteq> [] \<and> c \<noteq> []
        \<and> (\<forall>x \<in> set a. not_space_at x) \<and> (\<forall>x \<in> set b. not_space_at x)
        \<and> (\<forall>x \<in> set c. not_space_at x)
        \<and> gs = [[], a, ''@'', b, ''.'', c, []]"
  then show "fits email_re 0 s gs" by (auto simp: email_re_def)
qed

lemma validateEmail_iff:
  "validateEmail s \<longleftrightarrow>
     (\<exists>a b c. s = a @ ''@'' @ b @ ''.'' @ c \<and> a \<noteq> [] \<and> b \<noteq> [] \<and> c \<noteq> []
        \<and> (\<forall>x \<in> set a. not_space_at x) \<and> (\<forall>x \<in> set b. not_space_at x)
        \<and> (\<forall>x \<in> set c. not_space_at x))"
proof -
  have "validateEmail s \<longleftrightarrow> (\<exists>gs. fits email_re 0 s gs)"
    unfolding validateEmail_def email_re_def rsearch_Bos
    using rmatch_sound rmatch_complete by (metis not_Some_eq)
  then show ?thesis unfolding fits_email by blast
qed


lemma js_word_not_space_at: "js_word x \<Longrightarrow> not_space_at x"
  by (auto simp: js_word_def not_space_at_def js_space_def Let_def)

lemma word_dot_dash_not_space_at: "word_dot_dash x \<Longrightarrow> not_space_at x"
  unfolding word_dot_dash_def
  by (auto simp: js_word_not_space_at) (auto simp: not_space_at_def js_space_def)

lemma fits_plain:
  assumes "fits plain_re i t gs"
  shows "\<exists>a b c. gs = [a, ''@'', b, ''.'', c] \<and> a \<noteq> [] \<and> b \<noteq> [] \<and> c \<noteq> []
           \<and> (\<forall>x \<in> set a. word_dot_dash x) \<and> (\<forall>x \<in> set b. word_dot_dash x)
           \<and> (\<forall>x \<in> set c. js_word x)"
proof -
  from assms have "length gs = 5" by (auto dest: fits_length simp: plain_re_def)
  then obtain a g1 b g3 c where gs: "gs = [a, g1, b, g3, c]"
    by (auto simp: length_Suc_conv eval_nat_numeral)
  from assms gs obtain s1 where a: "a \<noteq> []" "\<forall>x \<in> set a. word_dot_dash x"
    and f1: "fits [One (\<lambda>c. c = CHR ''@''), Many1 word_dot_dash, One (\<lambda>c. c = CHR ''.''),
                   Many1 js_word] (i + length a) s1 [g1, b, g3, c]"
    by (auto simp: plain_re_def)
  from f1 obtain s2 where g1: "g1 = ''@''"
    and f2: "fits [Many1 word_dot_dash, One (\<lambda>c. c = CHR ''.''), Many1 js_word]
               (Suc (i + length a)) s2 [b, g3, c]"
    by (cases s1) auto
  from f2 obtain s3 where b: "b \<noteq> []" "\<forall>x \<in> set b. word_dot_dash x"
    and f3: "fits [One (\<lambda>c. c = CHR ''.''), Many1 js_word]
               (Suc (i + length a) + length b) s3 [g3, c]"
    by auto
  from f3 obtain s4 where g3: "g3 = ''.''"
    and f4: "fits [Many1 js_word] (Suc (Suc (i + length a) + length b)) s4 [c]"
    by (cases s3) auto
  from f4 have c: "c \<noteq> []" "\<forall>x \<in> set c. js_word x" by auto
  from gs a b c g1 g3 show ?thesis by simp
qed

lemma rsearch_fits:
  assumes "rsearch p i s = Some gs"
  shows "\<exists>k \<le> length s. fits p (i + k) (drop k s) gs"
  using rsearch_first[OF assms] rmatch_sound by blast

lemma rsearch_subset:
  assumes "rsearch p i s = Some gs"
  shows "set (concat gs) \<subseteq> set s"
proof -
  from rsearch_fits[OF assms] obtain k where "fits p (i + k) (drop k s) gs" by blast
  then have "prefix (concat gs) (drop k s)" by (rule fits_prefix)
  then have "set (concat gs) \<subseteq> set (drop k s)" by (auto simp: prefix_def)
  then show ?thesis using set_drop_subset by fast
qed

lemma plain_match_valid:
  assumes "rsearch plain_re i s = Some gs"
  shows "validateEmail (concat gs)" and "concat gs \<noteq> []"
proof -
  from rsearch_fits[OF assms] obtain k where "fits plain_re (i + k) (drop k s) gs" by blast
  from fits_plain[OF this] obtain a b c where gs: "gs = [a, ''@'', b, ''.'', c]"
    and ne: "a \<noteq> []" "b \<noteq> []" "c \<noteq> []"
    and cl: "\<forall>x \<in> set a. word_dot_dash x" "\<forall>x \<in> set b. word_dot_dash x" "\<forall>x \<in> set c. js_word x"
    by blast
  from gs have cc: "concat gs = a @ ''@'' @ b @ ''.'' @ c" by simp
  from cl have "\<forall>x \<in> set a. not_space_at x" "\<forall>x \<in> set b. not_space_at x"
    "\<forall>x \<in> set c. not_space_at x"
    by (auto intro: word_dot_dash_not_space_at js_word_not_space_at)
  with ne cc show "validateEmail (concat gs)" unfolding validateEmail_iff by blast
  from cc show "concat gs \<noteq> []" by simp
qed

lemma trim_no_space: "\<forall>x \<in> set s. \<not> js_space x \<Longrightarrow> trim s = s"
proof -
  assume a: "\<forall>x \<in> set s. \<not> js_space x"
  then have "dropWhile js_space s = s" by (cases s) auto
  moreover from a have "dropWhile js_space (rev s) = rev s" by (cases "rev s") auto
  ultimately show ?thesis by (simp add: trim_def)
qed

lemma set_trim: "set (trim s) \<subseteq> set s"
  unfolding trim_def by (auto dest!: set_dropWhileD)

lemma valid_no_space:
  assumes "validateEmail s"
  shows "\<forall>x \<in> set s. \<not> js_space x" and "s \<noteq> []" and "CHR ''@'' \<in> set s"
proof -
  from assms obtain a b c where s: "s = a @ ''@'' @ b @ ''.'' @ c"
    and cl: "\<forall>x \<in> set a. not_space_at x" "\<forall>x \<in> set b. not_space_at x"
      "\<forall>x \<in> set c. not_space_at x"
    unfolding validateEmail_iff by blast
  have "\<not> js_space CHR ''@''" "\<not> js_space CHR ''.''" by (simp_all add: js_space_def)
  with s cl show "\<forall>x \<in> set s. \<not> js_space x" by (auto simp: not_space_at_def)
  from s show "s \<noteq> []" by simp
  from s show "CHR ''@'' \<in> set s" by simp
qed

lemma bracket_needs_both:
  assumes "rsearch bracket_re i s = Some gs"
  shows "CHR ''<'' \<in> set s" and "CHR ''>'' \<in> set s"
proof -
  from rsearch_fits[OF assms] obtain k where "fits bracket_re (i + k) (drop k s) gs" by blast
  then obtain g post where d: "drop k s = ''<'' @ g @ ''>'' @ post"
    unfolding fits_bracket by blast
  have "set (drop k s) \<subseteq> set s" by (rule set_drop_subset)
  with d show "CHR ''<'' \<in> set s" and "CHR ''>'' \<in> set s" by auto
qed

lemma bracket_group:
  assumes "rsearch bracket_re i s = Some gs"
  shows "set (gs ! 1) \<subseteq> set s"
proof -
  from rsearch_fits[OF assms] obtain k where "fits bracket_re (i + k) (drop k s) gs" by blast
  then have "length gs = 3" by (auto dest: fits_length simp: bracket_re_def)
  then have "gs ! 1 \<in> set gs" by simp
  then have "set (gs ! 1) \<subseteq> set (concat gs)" by auto
  with rsearch_subset[OF assms] show ?thesis by blast
qed

lemma extractEmailAddress_subset: "set (extractEmailAddress s) \<subseteq> set s"
proof (cases "rsearch bracket_re 0 s")
  case (Some m)
  with bracket_group[OF Some] show ?thesis by (simp add: extractEmailAddress_def)
next
  case None
  show ?thesis
  proof (cases "rsearch plain_re 0 s")
    case (Some emailMatch)
    with None rsearch_subset[OF Some] show ?thesis by (simp add: extractEmailAddress_def)
  next
    case None2: None
    with None set_trim[of s] show ?thesis by (simp add: extractEmailAddress_def)
  qed
qed

lemma extract_first_segment:
  assumes "bracket_segment s pre g post" and "CHR ''<'' \<notin> set pre"
  shows "extractEmailAddress s = g"
proof -
  from bracket_segment_match[OF assms(1)] have le: "length pre \<le> length s"
    and m: "rmatch bracket_re (0 + length pre) (drop (length pre) s) = Some [''<'', g, ''>'']"
    by simp_all
  from m have "rmatch bracket_re (0 + length pre) (drop (length pre) s) \<noteq> None" by simp
  with le have "rsearch bracket_re 0 s \<noteq> None" by (rule rsearch_found)
  then obtain gs where gs: "rsearch bracket_re 0 s = Some gs" by blast
  from rsearch_first[OF this] obtain k where k: "k \<le> length s"
    "rmatch bracket_re k (drop k s) = Some gs"
    "\<forall>j < k. rmatch bracket_re j (drop j s) = None" by auto
  from k(3) m have kle: "k \<le> length pre" by (metis add_0 not_less option.distinct(1))
  have "k = length pre"
  proof (rule ccontr)
    assume "k \<noteq> length pre"
    with kle have lt: "k < length pre" by simp
    from k(2) obtain g' post' where "drop k s = ''<'' @ g' @ ''>'' @ post'"
      unfolding bracket_match_iff fits_bracket by blast
    then have "hd (drop k s) = CHR ''<''" by simp
    moreover from lt le have "hd (drop k s) = s ! k" by (simp add: hd_drop_conv_nth)
    moreover from assms(1) lt have "s ! k = pre ! k"
      by (simp add: bracket_segment_def nth_append)
    ultimately have "pre ! k = CHR ''<''" by simp
    with lt assms(2) show False by (metis nth_mem)
  qed
  with k(2) m have "gs = [''<'', g, ''>'']" by simp
  with gs show ?thesis by (simp add: extractEmailAddress_def)
qed

section \<open>The walk up the ancestors\<close>


lemma node_at_snoc:
  "node_at (p @ [i]) d = Some n \<Longrightarrow> \<exists>t a v c cs. node_at p d = Some (Element t a v c cs)"
proof (induction p arbitrary: d)
  case Nil
  then show ?case by (cases d) auto
next
  case (Cons j p)
  then show ?case by (cases d) (auto split: if_splits)
qed

lemma element_at_parent:
  assumes "element_at d q \<noteq> None" and "q \<noteq> []"
  shows "element_at d (butlast q) \<noteq> None"
proof -
  from assms(2) have q: "q = butlast q @ [last q]" by simp
  from assms(1) obtain n where "node_at q d = Some n"
    by (auto simp: element_at_def split: option.splits)
  with q have "node_at (butlast q @ [last q]) d = Some n" by simp
  from node_at_snoc[OF this] show ?thesis by (auto simp: element_at_def)
qed

lemma find_append_opt:
  "find P (xs @ ys) = (case find P xs of Some x \<Rightarrow> Some x | None \<Rightarrow> find P ys)"
  by (induction xs) auto

lemma method1_candidate:
  "method1 cur = (case candidate1 cur of
                    None \<Rightarrow> None
                  | Some e \<Rightarrow> if validateEmail e then Some e else None)"
  using valid_no_space(2)
  by (auto simp: method1_def candidate1_def split: option.splits)

lemma method2_candidate:
  "method2 cur = (case candidate2 cur of
                    None \<Rightarrow> None
                  | Some e \<Rightarrow> if validateEmail e then Some e else None)"
  using valid_no_space(2)
  by (auto simp: method2_def candidate2_def hasAttribute_def split: option.splits)

lemma method3_candidate:
  "method3 cur = (case candidate3 cur of
                    None \<Rightarrow> None
                  | Some e \<Rightarrow> if validateEmail e then Some e else None)"
  using valid_no_space(2)
  by (auto simp: method3_def candidate3_def parse_sender_text_def split: option.splits)

lemma level_methods:
  "(case method1 cur of
      Some email \<Rightarrow> Some email
    | None \<Rightarrow> (case method2 cur of Some email \<Rightarrow> Some email | None \<Rightarrow> method3 cur))
   = find validateEmail (List.map_filter id [candidate1 cur, candidate2 cur, candidate3 cur])"
  unfolding method1_candidate method2_candidate method3_candidate
  by (cases "candidate1 cur"; cases "candidate2 cur"; cases "candidate3 cur")
     (simp_all add: List.map_filter_simps)

lemma loop_is_spec:
  "15 - i = n \<Longrightarrow> element_at d q \<noteq> None \<Longrightarrow>
     extractSender_loop d i (Some q)
       = find validateEmail (concat (map (level_candidates d) (take n (ancestors_from q))))"
proof (induction n arbitrary: i q)
  case 0
  then show ?case by (simp add: extractSender_loop.simps)
next
  case (Suc n)
  from Suc.prems obtain cur where cur: "element_at d q = Some cur" by blast
  from Suc.prems have i: "i < 15" "15 - Suc i = n" by simp_all
  let ?here = "find validateEmail (List.map_filter id [candidate1 cur, candidate2 cur, candidate3 cur])"
  let ?rest = "case parentElement q of None \<Rightarrow> [] | Some q' \<Rightarrow> ancestors_from q'"
  have up: "extractSender_loop d (Suc i) (parentElement q)
              = find validateEmail (concat (map (level_candidates d) (take n ?rest)))"
  proof (cases "parentElement q")
    case None
    then show ?thesis by (simp add: extractSender_loop.simps)
  next
    case (Some q')
    then have "q \<noteq> []" "q' = butlast q" by (auto simp: parentElement_def split: if_splits)
    with Suc.prems(2) have "element_at d q' \<noteq> None" by (simp add: element_at_parent)
    from Suc.IH[OF i(2) this] Some show ?thesis by simp
  qed
  have "extractSender_loop d i (Some q)
          = (case ?here of Some e \<Rightarrow> Some e | None \<Rightarrow> extractSender_loop d (Suc i) (parentElement q))"
    unfolding level_methods[symmetric]
    by (subst extractSender_loop.simps) (simp add: i cur split: option.splits)
  also have "\<dots> = find validateEmail (level_candidates d q @ concat (map (level_candidates d) (take n ?rest)))"
    by (simp add: find_append_opt up level_candidates_def cur split: option.splits)
  also have "\<dots> = find validateEmail (concat (map (level_candidates d) (take (Suc n) (ancestors_from q))))"
    by (subst (2) ancestors_from.simps) simp
  finally show ?case .
qed

section \<open>Searching the document\<close>


lemma find_first:
  "xs = before @ x # after \<Longrightarrow> P x \<Longrightarrow> \<forall>y \<in> set before. \<not> P y \<Longrightarrow> find P xs = Some x"
  by (induction before arbitrary: xs) auto


lemma find_create_button_Some:
  "find_create_button texts d = Some b \<Longrightarrow>
     \<exists>k < length texts. find_by_text sel_create_candidates (texts ! k) d = Some b
        \<and> (\<forall>j < k. find_by_text sel_create_candidates (texts ! j) d = None)"
proof (induction texts)
  case Nil
  then show ?case by simp
next
  case (Cons variant texts)
  show ?case
  proof (cases "find_by_text sel_create_candidates variant d")
    case (Some b')
    with Cons.prems have "find_by_text sel_create_candidates ((variant # texts) ! 0) d = Some b" by simp
    then show ?thesis by (intro exI[of _ 0]) simp
  next
    case None
    with Cons obtain k where k: "k < length texts"
      "find_by_text sel_create_candidates (texts ! k) d = Some b"
      "\<forall>j < k. find_by_text sel_create_candidates (texts ! j) d = None" by auto
    have "\<forall>j < Suc k. find_by_text sel_create_candidates ((variant # texts) ! j) d = None"
    proof (intro allI impI)
      fix j assume "j < Suc k"
      with None k(3) show "find_by_text sel_create_candidates ((variant # texts) ! j) d = None"
        by (cases j) auto
    qed
    with k show ?thesis by (intro exI[of _ "Suc k"]) simp
  qed
qed


section \<open>The page operations\<close>

lemmas page_ops =
  perform_def click_def dispatch_input_def sleep_def set_hash_def write_value_def
  console_log_def console_warn_def console_error_def alert_def prompt_def find_input_def

lemma walk_node_at:
  "(q, n) \<in> set (walk p d) \<Longrightarrow>
     \<exists>r t a v c cs. q = p @ r \<and> node_at r d = Some n \<and> n = Element t a v c cs"
  and walks_node_at:
  "(q, n) \<in> set (walks p i ns) \<Longrightarrow>
     \<exists>j r t a v c cs. q = p @ (i + j) # r \<and> j < length ns \<and> node_at r (ns ! j) = Some n
        \<and> n = Element t a v c cs"
proof (induction p d and p i ns arbitrary: q n and q n rule: walk_walks.induct)
  case (1 p s)
  then show ?case by simp
next
  case (2 p t a v c cs)
  show ?case
  proof (cases "(q, n) = (p, Element t a v c cs)")
    case True
    then show ?thesis by simp
  next
    case False
    with "2.prems" have "(q, n) \<in> set (walks p 0 cs)" by auto
    from "2.IH"[OF this] obtain j r t' a' v' c' cs' where
      "q = p @ j # r" "j < length cs" "node_at r (cs ! j) = Some n" "n = Element t' a' v' c' cs'"
      by auto
    then show ?thesis by (intro exI[of _ "j # r"]) simp
  qed
next
  case (3 p i)
  then show ?case by simp
next
  case (4 p i m ms)
  from "4.prems" consider "(q, n) \<in> set (walk (p @ [i]) m)" | "(q, n) \<in> set (walks p (Suc i) ms)"
    by auto
  then show ?case
  proof cases
    case 1
    from "4.IH"(1)[OF this] obtain r t a v c cs where
      "q = (p @ [i]) @ r" "node_at r m = Some n" "n = Element t a v c cs" by blast
    then show ?thesis by (intro exI[of _ 0] exI[of _ r]) simp
  next
    case 2
    from "4.IH"(2)[OF this] obtain j r t a v c cs where
      "q = p @ (Suc i + j) # r" "j < length ms" "node_at r (ms ! j) = Some n"
      "n = Element t a v c cs" by blast
    then show ?thesis by (intro exI[of _ "Suc j"] exI[of _ r]) simp
  qed
qed

lemma find_Some_mem: "find P xs = Some x \<Longrightarrow> x \<in> set xs \<and> P x"
  by (induction xs) (auto split: if_splits)

lemma findInputByLabel_element:
  assumes "findInputByLabel labelText d = Inr el"
  shows "\<exists>t a v c cs. node_at el d = Some (Element t a v c cs)"
proof -
  from assms obtain ident n where "getElementById d ident = Some (el, n)"
    by (auto simp: findInputByLabel_def Let_def split: option.splits if_splits prod.splits)
  then have "(el, n) \<in> set (walk [] d)"
    by (auto simp: getElementById_def dest: find_Some_mem)
  from walk_node_at[OF this] show ?thesis by auto
qed

lemma node_at_set_value:
  "node_at q d = Some (Element t a v c cs) \<Longrightarrow>
     node_at q (set_value q w d) = Some (Element t a (Some w) c cs)"
proof (induction q arbitrary: d)
  case Nil
  then show ?case by simp
next
  case (Cons i q)
  then show ?case by (cases d) (auto split: if_splits)
qed

lemma value_at_written:
  assumes "findInputByLabel labelText d = Inr el"
  shows "value_at (set_value el w d) el = Some w"
proof -
  from findInputByLabel_element[OF assms] obtain t a v c cs where
    "node_at el d = Some (Element t a v c cs)" by blast
  from node_at_set_value[OF this] show ?thesis by (simp add: value_at_def)
qed



section \<open>The polling waits\<close>

lemma waitForLabels_first_tick:
  assumes "querySelectorAll sel_label (react env (Sleep 100) (doc p)) \<noteq> []"
  shows "waitForLabels env timeout p = Inr (sleep env 100 p)"
  using assms
  by (simp add: waitForLabels_def Let_def page_ops waitForLabels_poll.simps[of env timeout "clock p" p])

lemma waitForLabels_poll_timeout:
  "start \<le> clock p \<Longrightarrow> clock p \<le> start + timeout \<Longrightarrow>
   \<forall>k \<ge> 1. querySelectorAll sel_label ((react env (Sleep 100) ^^ k) (doc p)) = [] \<Longrightarrow>
     \<exists>q. waitForLabels_poll env timeout start p
            = Inl (Error ''Timeout waiting for form labels'', q)
          \<and> start + timeout < clock q \<and> clock q \<le> start + timeout + 100"
proof (induction env timeout start p rule: waitForLabels_poll.induct)
  case (1 env timeout start p)
  let ?p1 = "sleep env 100 p"
  have d1: "doc ?p1 = react env (Sleep 100) (doc p)" and c1: "clock ?p1 = clock p + 100"
    by (simp_all add: page_ops)
  from "1.prems"(3) have "querySelectorAll sel_label ((react env (Sleep 100) ^^ 1) (doc p)) = []"
    by blast
  with d1 have none: "querySelectorAll sel_label (doc ?p1) = []" by simp
  show ?case
  proof (cases "clock ?p1 - start > timeout")
    case True
    with none have "waitForLabels_poll env timeout start p
                      = Inl (Error ''Timeout waiting for form labels'', ?p1)"
      by (subst waitForLabels_poll.simps) (simp add: Let_def)
    moreover from True have "start + timeout < clock ?p1" by simp
    moreover from c1 "1.prems"(2) have "clock ?p1 \<le> start + timeout + 100" by simp
    ultimately show ?thesis by blast
  next
    case False
    with none have step: "waitForLabels_poll env timeout start p
                      = waitForLabels_poll env timeout start ?p1"
      by (subst waitForLabels_poll.simps) (simp add: Let_def)
    from c1 "1.prems"(1) have a: "start \<le> clock ?p1" by simp
    from False have b: "clock ?p1 \<le> start + timeout" by simp
    have c: "\<forall>k \<ge> 1. querySelectorAll sel_label ((react env (Sleep 100) ^^ k) (doc ?p1)) = []"
    proof (intro allI impI)
      fix k :: nat assume "1 \<le> k"
      have e: "(react env (Sleep 100) ^^ k) (doc ?p1) = (react env (Sleep 100) ^^ Suc k) (doc p)"
        unfolding d1 by (simp add: funpow_swap1)
      have "querySelectorAll sel_label ((react env (Sleep 100) ^^ Suc k) (doc p)) = []"
        using "1.prems"(3)[rule_format, of "Suc k"] by simp
      then show "querySelectorAll sel_label ((react env (Sleep 100) ^^ k) (doc ?p1)) = []"
        unfolding e .
    qed
    from "1.IH"[OF refl _ _ a b c] none False step show ?thesis by simp
  qed
qed

lemma nav_poll_first_tick:
  assumes "querySelectorAll sel_settings (react env (Sleep 200) (doc p)) \<noteq> []"
  shows "nav_poll env (clock p) p = sleep env 1000 (sleep env 200 p)"
  using assms
  by (simp add: Let_def page_ops nav_poll.simps[of env "clock p" p])

lemma nav_poll_timeout:
  "clock p = start + 200 * m \<Longrightarrow> m < 50 \<Longrightarrow>
   \<forall>k \<ge> 1. querySelectorAll sel_settings ((react env (Sleep 200) ^^ k) (doc p)) = [] \<Longrightarrow>
     clock (nav_poll env start p) = start + 10000"
proof (induction env start p arbitrary: m rule: nav_poll.induct)
  case (1 env start p)
  let ?p1 = "sleep env 200 p"
  have d1: "doc ?p1 = react env (Sleep 200) (doc p)" and c1: "clock ?p1 = clock p + 200"
    by (simp_all add: page_ops)
  from c1 "1.prems"(1) have c1': "clock ?p1 = start + 200 * Suc m" by simp
  then have el: "clock ?p1 - start = 200 * Suc m" by simp
  have "querySelectorAll sel_settings ((react env (Sleep 200) ^^ 1) (doc p)) = []"
    using "1.prems"(3)[rule_format, of 1] by simp
  with d1 have none: "querySelectorAll sel_settings (doc ?p1) = []" by simp
  show ?case
  proof (cases "Suc m = 50")
    case True
    with el have "clock ?p1 - start = 10000" by simp
    then have "nav_poll env start p = ?p1"
      by (subst nav_poll.simps) (simp add: Let_def)
    with c1' True show ?thesis by simp
  next
    case False
    with "1.prems"(2) have m: "Suc m < 50" by simp
    with el have lt: "\<not> 10000 \<le> clock ?p1 - start" by simp
    with none have step: "nav_poll env start p = nav_poll env start ?p1"
      by (subst nav_poll.simps) (simp add: Let_def)
    have c: "\<forall>k \<ge> 1. querySelectorAll sel_settings ((react env (Sleep 200) ^^ k) (doc ?p1)) = []"
    proof (intro allI impI)
      fix k :: nat assume "1 \<le> k"
      have e: "(react env (Sleep 200) ^^ k) (doc ?p1) = (react env (Sleep 200) ^^ Suc k) (doc p)"
        unfolding d1 by (simp add: funpow_swap1)
      have "querySelectorAll sel_settings ((react env (Sleep 200) ^^ Suc k) (doc p)) = []"
        using "1.prems"(3)[rule_format, of "Suc k"] by simp
      then show "querySelectorAll sel_settings ((react env (Sleep 200) ^^ k) (doc ?p1)) = []"
        unfolding e .
    qed
    from "1.IH"[OF refl refl lt _ c1' m c] none step show ?thesis by simp
  qed
qed

lemma static_env_funpow: "(react static_env e ^^ k) d = d"
  by (induction k) (simp_all add: static_env_def)

section \<open>The location during a run\<close>

lemma nav_poll_hash: "hash (nav_poll env start p) = hash p"
proof (induction env start p rule: nav_poll.induct)
  case (1 env start p)
  show ?case
  proof (cases "10000 \<le> clock (sleep env 200 p) - start")
    case True
    then show ?thesis by (subst nav_poll.simps) (simp add: Let_def page_ops)
  next
    case False
    show ?thesis
    proof (cases "querySelectorAll sel_settings (doc (sleep env 200 p)) \<noteq> []")
      case True
      with False show ?thesis by (subst nav_poll.simps) (simp add: Let_def page_ops)
    next
      case found: False
      from "1.IH"[OF refl refl False found]
      have "hash (nav_poll env start (sleep env 200 p)) = hash p" by (simp add: page_ops)
      with False found show ?thesis by (subst nav_poll.simps) (simp add: Let_def)
    qed
  qed
qed

lemma nav_poll_doc_static:
  "\<forall>e d. react env e d = d \<Longrightarrow> doc (nav_poll env start p) = doc p"
proof (induction env start p rule: nav_poll.induct)
  case (1 env start p)
  note st = "1.prems"[rule_format]
  show ?case
  proof (cases "10000 \<le> clock (sleep env 200 p) - start")
    case True
    then show ?thesis by (subst nav_poll.simps) (simp add: Let_def page_ops st)
  next
    case False
    show ?thesis
    proof (cases "querySelectorAll sel_settings (doc (sleep env 200 p)) \<noteq> []")
      case True
      with False show ?thesis by (subst nav_poll.simps) (simp add: Let_def page_ops st)
    next
      case found: False
      from "1.IH"[OF refl refl False found "1.prems"]
      have "doc (nav_poll env start (sleep env 200 p)) = doc p" by (simp add: page_ops st)
      with False found show ?thesis by (subst nav_poll.simps) (simp add: Let_def)
    qed
  qed
qed

lemma navigate_hash: "hash (navigateToFiltersSettings env p) = ''#settings/filters''"
  by (simp add: navigateToFiltersSettings_def Let_def nav_poll_hash)
     (simp add: page_ops hash_of_def)

lemma waitForLabels_poll_hash:
  "hash (final_page (waitForLabels_poll env timeout start p)) = hash p"
proof (induction env timeout start p rule: waitForLabels_poll.induct)
  case (1 env timeout start p)
  show ?case
  proof (cases "querySelectorAll sel_label (doc (sleep env 100 p)) \<noteq> []")
    case True
    then show ?thesis by (subst waitForLabels_poll.simps) (simp add: Let_def page_ops)
  next
    case none: False
    show ?thesis
    proof (cases "clock (sleep env 100 p) - start > timeout")
      case True
      with none show ?thesis by (subst waitForLabels_poll.simps) (simp add: Let_def page_ops)
    next
      case False
      from "1.IH"[OF refl none False]
      have "hash (final_page (waitForLabels_poll env timeout start (sleep env 100 p))) = hash p"
        by (simp add: page_ops)
      with none False show ?thesis by (subst waitForLabels_poll.simps) (simp add: Let_def)
    qed
  qed
qed

lemma updateExistingFilter_hash:
  "hash (final_page (updateExistingFilter env filterElement newSenderEmail p)) = hash p"
  by (simp add: updateExistingFilter_def Let_def page_ops split: sum.splits option.splits)

lemma createNewFilter_no_button:
  "find_create_button buttonTexts (doc p) = None \<Longrightarrow>
     createNewFilter env senderEmail labelName p
       = Inl (Error (''Could not find '' @ sq @ ''Create a new filter'' @ sq @ '' button''),
              console_log (''[Gmail Auto-Label] Looking for '' @ sq @ ''Create filter'' @ sq
                           @ '' button...'') p)"
  by (simp add: createNewFilter_def console_log_def)

lemma waitForLabels_hash:
  "waitForLabels env timeout p = Inr q \<Longrightarrow> hash q = hash p"
  "waitForLabels env timeout p = Inl (err, q) \<Longrightarrow> hash q = hash p"
  using waitForLabels_poll_hash[of env timeout "clock p" p]
  by (simp_all add: waitForLabels_def)

lemma find_input_hash: "hash (snd (find_input labelText p)) = hash p"
  by (simp add: find_input_def console_warn_def split: sum.splits)

lemma createNewFilter_hash:
  "hash (final_page (createNewFilter env senderEmail labelName p)) = hash p"
proof -
  let ?p1 = "console_log (''[Gmail Auto-Label] Looking for '' @ sq @ ''Create filter'' @ sq
                            @ '' button...'') p"
  show ?thesis
  proof (cases "find_create_button buttonTexts (doc ?p1)")
    case None
    then show ?thesis by (simp add: createNewFilter_def Let_def console_log_def)
  next
    case (Some createFilterBtn)
    let ?p2 = "console_log ''[Gmail Auto-Label] Clicked create filter button''
                         (click env createFilterBtn ?p1)"
    have h2: "hash ?p2 = hash p" by (simp add: page_ops)
    show ?thesis
    proof (cases "waitForLabels env 5000 ?p2")
      case (Inl failure)
      obtain err q where f: "failure = (err, q)" by (cases failure)
      with Inl waitForLabels_hash(2)[of env 5000 ?p2 err q] h2 have "hash q = hash p" by simp
      with Some Inl f show ?thesis by (simp add: createNewFilter_def Let_def)
    next
      case (Inr p3)
      with waitForLabels_hash(1)[of env 5000 ?p2 p3] h2 have h3: "hash p3 = hash p" by simp
      from Some Inr h3 show ?thesis
        by (simp add: createNewFilter_def Let_def page_ops
              split: sum.splits option.splits prod.splits)
    qed
  qed
qed

lemma createOrUpdateFilter_hash:
  "hash (final_page (createOrUpdateFilter env senderEmail labelName p))
     = (case thrown (createOrUpdateFilter env senderEmail labelName p) of
          None \<Rightarrow> hash_of (hash p)
        | Some err \<Rightarrow> ''#settings/filters'')"
proof -
  let ?p1 = "navigateToFiltersSettings env p"
  let ?done = "case findFilterByMetadata env labelName (doc ?p1) of
                    Some existingFilter \<Rightarrow>
                      updateExistingFilter env existingFilter senderEmail
                        (console_log ''[Gmail Auto-Label] Found existing filter, updating...'' ?p1)
                  | None \<Rightarrow>
                      createNewFilter env senderEmail labelName
                        (console_log ''[Gmail Auto-Label] Creating new filter...'' ?p1)"
  have h: "hash (final_page ?done) = ''#settings/filters''"
    using navigate_hash[of env p]
    by (simp add: updateExistingFilter_hash createNewFilter_hash console_log_def
          split: option.splits)
  show ?thesis
  proof (cases ?done)
    case (Inl failure)
    obtain err q where "failure = (err, q)" by (cases failure)
    with Inl h show ?thesis
      by (simp add: createOrUpdateFilter_def Let_def console_error_def)
  next
    case (Inr p2)
    then show ?thesis by (simp add: createOrUpdateFilter_def Let_def page_ops)
  qed
qed

lemma hash_of_getter: "hash_of (hash_of v) = hash_of v"
  by (simp add: hash_of_def Let_def)

section \<open>Writing a value leaves the rest of the document\<close>















section \<open>The update path\<close>




lemma update_sender_absent:
  assumes "d1 = react env (Sleep 1000) (react env (Click filterElement) (doc p))"
    and "findInputByLabel ''From'' d1 = Inr fromInput"
    and "value_at d1 fromInput = Some currentValue"
    and "\<not> js_includes currentValue newSenderEmail"
    and "d2 = react env (Sleep 500) (react env (InputEvent fromInput)
               (set_value fromInput (currentValue @ '' | '' @ newSenderEmail) d1))"
  shows "\<exists>q. updateExistingFilter env filterElement newSenderEmail p = Inr q
           \<and> trace q = trace p @ [Click filterElement, Sleep 1000,
                  SetValue fromInput (currentValue @ '' | '' @ newSenderEmail),
                  InputEvent fromInput, Sleep 500]
                @ (case find_by_text sel_button_link ''Update filter'' d2 of
                     Some updateBtn \<Rightarrow> [Click updateBtn, Sleep 500]
                   | None \<Rightarrow> [])
           \<and> doc q = (case find_by_text sel_button_link ''Update filter'' d2 of
                        Some updateBtn \<Rightarrow> react env (Sleep 500) (react env (Click updateBtn) d2)
                      | None \<Rightarrow> d2)"
  using assms
  by (simp add: updateExistingFilter_def Let_def page_ops split: option.splits)





section \<open>The creation path\<close>




section \<open>Claims\<close>

text \<open>
  C1. A run of \<open>createOrUpdateFilter\<close> that fails: the page shows no rule for the label
  and no create-new-rule affordance, so \<open>createNewFilter\<close> throws. The location was
  \<^verbatim>\<open>#inbox\<close> before the run and is \<^verbatim>\<open>#settings/filters\<close> after it: the assignment of
  the original hash is the last statement of the \<^verbatim>\<open>try\<close> block, and the \<^verbatim>\<open>catch\<close>
  block only writes to the console and throws the error again. This is so on every run
  that throws, and a run that returns does restore the location (lemma
  \<open>createOrUpdateFilter_hash\<close>).
\<close>

theorem createOrUpdateFilter_failure_not_restored:
  "hash mail_page = ''#inbox''
   \<and> thrown (createOrUpdateFilter static_env ''jane@example.com'' ''Newsletter'' mail_page)
       = Some (Error (''Could not find '' @ sq @ ''Create a new filter'' @ sq @ '' button''))
   \<and> hash (final_page (createOrUpdateFilter static_env ''jane@example.com'' ''Newsletter'' mail_page))
       = ''#settings/filters''"
proof -
  let ?p1 = "navigateToFiltersSettings static_env mail_page"
  let ?p1' = "console_log ''[Gmail Auto-Label] Creating new filter...'' ?p1"
  have r: "\<forall>e d. react static_env e d = d" by (simp add: static_env_def)
  have d: "doc ?p1 = mail_doc"
    by (simp add: navigateToFiltersSettings_def Let_def nav_poll_doc_static[OF r])
       (simp add: page_ops r mail_page_def)
  have none: "findFilterByMetadata static_env ''Newsletter'' mail_doc = None" by code_simp
  have "find_create_button buttonTexts mail_doc = None" by code_simp
  with d have nb: "find_create_button buttonTexts (doc ?p1') = None"
    by (simp add: console_log_def)
  have h: "hash ?p1 = ''#settings/filters''" by (rule navigate_hash)
  have "createOrUpdateFilter static_env ''jane@example.com'' ''Newsletter'' mail_page
          = Inl (Error (''Could not find '' @ sq @ ''Create a new filter'' @ sq @ '' button''),
                 console_error (''[Gmail Auto-Label] Filter operation failed: ''
                                @ ''Could not find '' @ sq @ ''Create a new filter'' @ sq @ '' button'')
                   (console_log (''[Gmail Auto-Label] Looking for '' @ sq @ ''Create filter'' @ sq
                                 @ '' button...'') ?p1'))"
    unfolding createOrUpdateFilter_def Let_def d none
    by (simp add: createNewFilter_no_button[OF nb])
  with h show ?thesis by (simp add: mail_page_def console_log_def console_error_def)
qed

text \<open>
  C2. The two polling waits of the workflow, in virtual time (every timer fires exactly
  when it is due). Neither wait looks at the page before its first tick. When the
  predicate holds at the first tick, \<open>waitForLabels\<close> resolves at that tick, one full
  interval of 100 ms after the call, and \<open>navigateToFiltersSettings\<close> resolves at
  its first tick of 200 ms plus the delay of 1000 ms. When the predicate holds at no
  tick, \<open>waitForLabels\<close> rejects with the timeout error at the first tick later than
  \<open>timeout\<close> ms after the call, which is at most \<open>timeout + 100\<close> ms after it, and
  \<open>navigateToFiltersSettings\<close> resolves 10000 ms after the call.
\<close>

theorem polling_waits:
  "(querySelectorAll sel_label (react env (Sleep 100) (doc p)) \<noteq> []
      \<longrightarrow> waitForLabels env timeout p = Inr (sleep env 100 p)
          \<and> clock (sleep env 100 p) = clock p + 100)
   \<and> (querySelectorAll sel_settings
         (react env (Sleep 200) (react env (SetHash ''settings/filters'') (doc p))) \<noteq> []
      \<longrightarrow> clock (navigateToFiltersSettings env p) = clock p + 1200)
   \<and> ((\<forall>k \<ge> 1. querySelectorAll sel_label ((react env (Sleep 100) ^^ k) (doc p)) = [])
      \<longrightarrow> (\<exists>q. waitForLabels env timeout p = Inl (Error ''Timeout waiting for form labels'', q)
             \<and> clock p + timeout < clock q \<and> clock q \<le> clock p + timeout + 100))
   \<and> ((\<forall>k \<ge> 1. querySelectorAll sel_settings
          ((react env (Sleep 200) ^^ k) (react env (SetHash ''settings/filters'') (doc p))) = [])
      \<longrightarrow> clock (navigateToFiltersSettings env p) = clock p + 10000)"
proof (intro conjI impI)
  assume "querySelectorAll sel_label (react env (Sleep 100) (doc p)) \<noteq> []"
  then show "waitForLabels env timeout p = Inr (sleep env 100 p)"
    by (rule waitForLabels_first_tick)
next
  show "clock (sleep env 100 p) = clock p + 100" by (simp add: page_ops)
next
  let ?p2 = "set_hash env ''settings/filters''
               (console_log ''[Gmail Auto-Label] Navigating to filters settings...'' p)"
  assume "querySelectorAll sel_settings
         (react env (Sleep 200) (react env (SetHash ''settings/filters'') (doc p))) \<noteq> []"
  then have "querySelectorAll sel_settings (react env (Sleep 200) (doc ?p2)) \<noteq> []"
    by (simp add: page_ops)
  from nav_poll_first_tick[OF this]
  show "clock (navigateToFiltersSettings env p) = clock p + 1200"
    by (simp add: navigateToFiltersSettings_def Let_def) (simp add: page_ops)
next
  assume "\<forall>k \<ge> 1. querySelectorAll sel_label ((react env (Sleep 100) ^^ k) (doc p)) = []"
  from waitForLabels_poll_timeout[OF _ _ this, of "clock p" timeout]
  show "\<exists>q. waitForLabels env timeout p = Inl (Error ''Timeout waiting for form labels'', q)
             \<and> clock p + timeout < clock q \<and> clock q \<le> clock p + timeout + 100"
    by (simp add: waitForLabels_def)
next
  let ?p2 = "set_hash env ''settings/filters''
               (console_log ''[Gmail Auto-Label] Navigating to filters settings...'' p)"
  assume "\<forall>k \<ge> 1. querySelectorAll sel_settings
          ((react env (Sleep 200) ^^ k) (react env (SetHash ''settings/filters'') (doc p))) = []"
  then have "\<forall>k \<ge> 1. querySelectorAll sel_settings ((react env (Sleep 200) ^^ k) (doc ?p2)) = []"
    by (simp add: page_ops)
  from nav_poll_timeout[OF _ _ this, of "clock ?p2" 0]
  show "clock (navigateToFiltersSettings env p) = clock p + 10000"
    by (simp add: navigateToFiltersSettings_def Let_def) (simp add: page_ops)
qed

theorem polling_waits_witness:
  "waitForLabels static_env 5000 settings_page = Inr (sleep static_env 100 settings_page)
   \<and> clock (sleep static_env 100 settings_page) = 100
   \<and> clock (navigateToFiltersSettings static_env settings_page) = 1200
   \<and> (\<exists>q. waitForLabels static_env 5000 mail_page
             = Inl (Error ''Timeout waiting for form labels'', q)
          \<and> 5000 < clock q \<and> clock q \<le> 5100)
   \<and> clock (navigateToFiltersSettings static_env mail_page) = 10000"
proof -
  have l: "querySelectorAll sel_label settings_doc \<noteq> []" by code_simp
  have s: "querySelectorAll sel_settings settings_doc \<noteq> []" by code_simp
  have nl: "querySelectorAll sel_label mail_doc = []" by code_simp
  have ns: "querySelectorAll sel_settings mail_doc = []" by code_simp
  have r: "\<And>e d. react static_env e d = d" by (simp add: static_env_def)
  from polling_waits[of static_env settings_page 5000] l s
  have a: "waitForLabels static_env 5000 settings_page = Inr (sleep static_env 100 settings_page)
           \<and> clock (sleep static_env 100 settings_page) = 100
           \<and> clock (navigateToFiltersSettings static_env settings_page) = 1200"
    by (simp add: r settings_page_def)
  from polling_waits[of static_env mail_page 5000] nl ns
  have b: "(\<exists>q. waitForLabels static_env 5000 mail_page
             = Inl (Error ''Timeout waiting for form labels'', q)
          \<and> 5000 < clock q \<and> clock q \<le> 5100)
        \<and> clock (navigateToFiltersSettings static_env mail_page) = 10000"
    by (simp add: r static_env_funpow mail_page_def)
  from a b show ?thesis by simp
qed

theorem polling_waits_counterexample:
  "querySelectorAll sel_label (doc settings_page) \<noteq> []
   \<and> react static_env (Sleep 100) (doc settings_page) = doc settings_page
   \<and> waitForLabels static_env 5000 settings_page = Inr (sleep static_env 100 settings_page)
   \<and> \<not> clock (sleep static_env 100 settings_page) < clock settings_page + 100"
proof -
  have "querySelectorAll sel_label (doc settings_page) \<noteq> []" by code_simp
  moreover have "react static_env (Sleep 100) (doc settings_page) = doc settings_page"
    by (simp add: static_env_def)
  moreover have "waitForLabels static_env 5000 settings_page = Inr (sleep static_env 100 settings_page)"
    by code_simp
  moreover have "\<not> clock (sleep static_env 100 settings_page) < clock settings_page + 100"
    by (simp add: page_ops)
  ultimately show ?thesis by simp
qed




text \<open>
  C4. The text-parsing step (\<open>extractEmailAddress\<close>, then \<open>validateEmail\<close>).
  For a text \<^verbatim>\<open>Name <addr>\<close> whose name has no \<^verbatim>\<open><\<close> and whose address is valid and
  has no \<^verbatim>\<open>>\<close>, the step yields the address. For a bare valid address that does not
  hold both a \<^verbatim>\<open><\<close> and a \<^verbatim>\<open>>\<close>, it yields an address that passes validation. For a
  string without \<^verbatim>\<open>@\<close> it yields nothing.

  The two side conditions are needed: the validation accepts the characters \<^verbatim>\<open><\<close> and
  \<^verbatim>\<open>>\<close>, and the bracket form is tried first and its contents end at the first
  \<^verbatim>\<open>>\<close>, as the counterexample shows.
\<close>

theorem parse_sender_text_cases:
  "(validateEmail addr \<and> CHR ''<'' \<notin> set name \<and> CHR ''>'' \<notin> set addr
      \<longrightarrow> parse_sender_text (name @ '' <'' @ addr @ ''>'') = Some addr)
   \<and> (validateEmail addr \<and> \<not> (CHR ''<'' \<in> set addr \<and> CHR ''>'' \<in> set addr)
      \<longrightarrow> (\<exists>e. parse_sender_text addr = Some e \<and> validateEmail e))
   \<and> (CHR ''@'' \<notin> set s \<longrightarrow> parse_sender_text s = None)"
proof (intro conjI impI)
  assume a: "validateEmail addr \<and> CHR ''<'' \<notin> set name \<and> CHR ''>'' \<notin> set addr"
  with valid_no_space(2)[of addr]
  have "bracket_segment (name @ '' <'' @ addr @ ''>'') (name @ '' '') addr []"
    by (simp add: bracket_segment_def)
  moreover from a have "CHR ''<'' \<notin> set (name @ '' '')" by simp
  ultimately have "extractEmailAddress (name @ '' <'' @ addr @ ''>'') = addr"
    by (rule extract_first_segment)
  with a valid_no_space(2)[of addr]
  show "parse_sender_text (name @ '' <'' @ addr @ ''>'') = Some addr"
    by (simp add: parse_sender_text_def)
next
  assume a: "validateEmail addr \<and> \<not> (CHR ''<'' \<in> set addr \<and> CHR ''>'' \<in> set addr)"
  then have nb: "rsearch bracket_re 0 addr = None"
    using bracket_needs_both[of 0 addr] by (cases "rsearch bracket_re 0 addr") auto
  show "\<exists>e. parse_sender_text addr = Some e \<and> validateEmail e"
  proof (cases "rsearch plain_re 0 addr")
    case None
    with nb a valid_no_space[of addr] show ?thesis
      by (simp add: parse_sender_text_def extractEmailAddress_def trim_no_space)
  next
    case (Some gs)
    with nb plain_match_valid[OF Some] show ?thesis
      by (simp add: parse_sender_text_def extractEmailAddress_def)
  qed
next
  assume "CHR ''@'' \<notin> set s"
  with extractEmailAddress_subset[of s] have "CHR ''@'' \<notin> set (extractEmailAddress s)" by blast
  with valid_no_space(3) have "\<not> validateEmail (extractEmailAddress s)" by blast
  then show "parse_sender_text s = None" by (simp add: parse_sender_text_def)
qed

theorem parse_sender_text_cases_witness:
  "parse_sender_text ''Jane Doe <jane@example.com>'' = Some ''jane@example.com''
   \<and> (\<exists>e. parse_sender_text ''jane@example.com'' = Some e \<and> validateEmail e)
   \<and> parse_sender_text ''Jane Doe'' = None"
proof -
  have v: "validateEmail ''jane@example.com''" by code_simp
  from v parse_sender_text_cases[of "''jane@example.com''" "''Jane Doe''" "''Jane Doe''"]
  show ?thesis by simp
qed

theorem parse_sender_text_counterexample:
  "validateEmail ''a>b@c.d'' \<and> parse_sender_text ''Jane <a>b@c.d>'' = None
   \<and> validateEmail ''<a>@b.c'' \<and> parse_sender_text ''<a>@b.c'' = None"
  by code_simp

text \<open>
  C5. From an origin element of the document, \<open>extractSenderFromElement\<close> returns the
  first candidate that passes validation, going through at most 15 levels of the
  ancestor chain (nearest first) and, at each level, through the three heuristics in
  their order; what it returns passes validation, and it returns nothing exactly when
  no candidate of these levels passes.
\<close>

theorem extractSenderFromElement_is_spec:
  assumes "element_at d origin \<noteq> None"
  shows "extractSenderFromElement d origin = extractSender_spec d origin
         \<and> length (take 15 (ancestors_from origin)) \<le> 15
         \<and> (\<forall>e. extractSenderFromElement d origin = Some e \<longrightarrow> validateEmail e)
         \<and> (extractSenderFromElement d origin = None \<longleftrightarrow>
              (\<forall>q \<in> set (take 15 (ancestors_from origin)).
                 \<forall>e \<in> set (level_candidates d q). \<not> validateEmail e))"
proof -
  from loop_is_spec[of 0 15 d origin] assms
  have eq: "extractSenderFromElement d origin = extractSender_spec d origin"
    by (simp add: extractSenderFromElement_def extractSender_spec_def)
  have v: "\<forall>e. extractSender_spec d origin = Some e \<longrightarrow> validateEmail e"
    by (auto simp: extractSender_spec_def find_Some_iff)
  have n: "extractSender_spec d origin = None \<longleftrightarrow>
              (\<forall>q \<in> set (take 15 (ancestors_from origin)).
                 \<forall>e \<in> set (level_candidates d q). \<not> validateEmail e)"
    by (auto simp: extractSender_spec_def find_None_iff)
  from eq v n show ?thesis by simp
qed


theorem extractSenderFromElement_is_spec_witness:
  "element_at mail_doc mail_origin \<noteq> None
   \<and> extractSenderFromElement mail_doc mail_origin = Some ''jane@example.com''
   \<and> extractSender_spec mail_doc mail_origin = Some ''jane@example.com''
   \<and> validateEmail ''jane@example.com''"
proof -
  have h: "element_at mail_doc mail_origin \<noteq> None" by code_simp
  have r: "extractSenderFromElement mail_doc mail_origin = Some ''jane@example.com''"
    by code_simp
  from extractSenderFromElement_is_spec[OF h] r h show ?thesis by simp
qed

text \<open>
  C6. \<open>findFilterByMetadata\<close> returns nothing exactly when no rendered rule row has a
  text that contains the marker (the prefix followed by the label name), and it returns
  the first row whose text contains the marker, whatever the other rows hold; so it
  returns the matching row when exactly one row matches. It is a function of the
  document alone and its result is a reference to a row: it changes nothing.
\<close>

theorem findFilterByMetadata_first_row:
  "(findFilterByMetadata env labelName d = None \<longleftrightarrow>
      (\<forall>(q, row) \<in> set (querySelectorAll sel_filter_row d).
         \<not> js_includes (textContent row) (METADATA_PREFIX env @ labelName)))
   \<and> (querySelectorAll sel_filter_row d = before @ (p, row) # after
        \<and> js_includes (textContent row) (METADATA_PREFIX env @ labelName)
        \<and> (\<forall>(q, r) \<in> set before. \<not> js_includes (textContent r) (METADATA_PREFIX env @ labelName))
      \<longrightarrow> findFilterByMetadata env labelName d = Some p)"
proof (intro conjI impI)
  show "findFilterByMetadata env labelName d = None \<longleftrightarrow>
      (\<forall>(q, row) \<in> set (querySelectorAll sel_filter_row d).
         \<not> js_includes (textContent row) (METADATA_PREFIX env @ labelName))"
    by (auto simp: findFilterByMetadata_def find_None_iff)
next
  assume a: "querySelectorAll sel_filter_row d = before @ (p, row) # after
        \<and> js_includes (textContent row) (METADATA_PREFIX env @ labelName)
        \<and> (\<forall>(q, r) \<in> set before. \<not> js_includes (textContent r) (METADATA_PREFIX env @ labelName))"
  let ?P = "\<lambda>(q, r). js_includes (textContent r) (METADATA_PREFIX env @ labelName)"
  from a have "find ?P (querySelectorAll sel_filter_row d) = Some (p, row)"
    by (intro find_first[where before = before and after = after]) auto
  then show "findFilterByMetadata env labelName d = Some p"
    by (simp add: findFilterByMetadata_def)
qed

theorem findFilterByMetadata_first_row_witness:
  "findFilterByMetadata static_env ''Newsletter'' settings_doc = Some [0, 1]
   \<and> findFilterByMetadata static_env ''Receipts'' settings_doc = None"
proof -
  have q: "querySelectorAll sel_filter_row settings_doc
             = [([0, 0], Element ''div'' [(''data-filter-id'', ''1'')] None False
                   [Text ''Matches: from:(boss@example.com) Do this: Star it''])]
               @ ([0, 1], Element ''div'' [(''data-filter-id'', ''2'')] None False
                   [Text ''Matches: from:(old@example.com) -{auto-label:Newsletter} Do this: Apply label''])
               # []"
    by code_simp
  have m: "js_includes (textContent (Element ''div'' [(''data-filter-id'', ''2'')] None False
                   [Text ''Matches: from:(old@example.com) -{auto-label:Newsletter} Do this: Apply label'']))
             (METADATA_PREFIX static_env @ ''Newsletter'')"
    by code_simp
  have n: "\<not> js_includes (textContent (Element ''div'' [(''data-filter-id'', ''1'')] None False
                   [Text ''Matches: from:(boss@example.com) Do this: Star it'']))
             (METADATA_PREFIX static_env @ ''Newsletter'')"
    by code_simp
  have r: "findFilterByMetadata static_env ''Receipts'' settings_doc = None" by code_simp
  from findFilterByMetadata_first_row[of static_env "''Newsletter''" settings_doc
      "[([0, 0], Element ''div'' [(''data-filter-id'', ''1'')] None False
                   [Text ''Matches: from:(boss@example.com) Do this: Star it''])]"
      "[0, 1]"
      "Element ''div'' [(''data-filter-id'', ''2'')] None False
                   [Text ''Matches: from:(old@example.com) -{auto-label:Newsletter} Do this: Apply label'']"
      "[]"] q m n r
  show ?thesis by simp
qed

text \<open>
  C7. When the sender has been found and the user cancels the prompt, or answers it
  with an empty or white-space label, \<open>handleAutoLabelClick\<close> ends there: the location,
  the document and the clock are as before, the only effect is the prompt itself (no
  navigation, no click, no write, no alert), and the console has two more lines, both at
  the level of \<^verbatim>\<open>console.log\<close>.
\<close>

theorem handleAutoLabelClick_cancelled:
  assumes "extractSenderFromElement (doc p) element = Some senderEmail"
    and "prompt_reply env = None \<or> (\<exists>labelName. prompt_reply env = Some labelName \<and> trim labelName = [])"
  shows "handleAutoLabelClick env (Some element) p
         = p\<lparr>trace := trace p @ [Prompt (''Enter the label name to auto-apply for emails from:''
                                          @ [CHR 0x0A] @ senderEmail)],
              console := console p
                @ [(LogLevel, ''[Gmail Auto-Label] Found sender: '' @ senderEmail),
                   (LogLevel, ''[Gmail Auto-Label] User cancelled or entered empty label name'')]\<rparr>"
  using assms
  by (auto simp: handleAutoLabelClick_def Let_def page_ops)

theorem handleAutoLabelClick_cancelled_witness:
  "handleAutoLabelClick static_env (Some mail_origin) mail_page
     = mail_page\<lparr>trace := [Prompt (''Enter the label name to auto-apply for emails from:''
                                    @ [CHR 0x0A] @ ''jane@example.com'')],
                 console := [(LogLevel, ''[Gmail Auto-Label] Found sender: jane@example.com''),
                   (LogLevel, ''[Gmail Auto-Label] User cancelled or entered empty label name'')]\<rparr>
   \<and> hash (handleAutoLabelClick (static_env\<lparr>prompt_reply := Some ''  ''\<rparr>) (Some mail_origin) mail_page)
       = ''#inbox''"
proof -
  have s: "extractSenderFromElement (doc mail_page) mail_origin = Some ''jane@example.com''"
    by code_simp
  have a: "prompt_reply static_env = None
           \<or> (\<exists>labelName. prompt_reply static_env = Some labelName \<and> trim labelName = [])"
    by (simp add: static_env_def)
  have t: "trim ''  '' = []" by code_simp
  then have b: "prompt_reply (static_env\<lparr>prompt_reply := Some ''  ''\<rparr>) = None
           \<or> (\<exists>labelName. prompt_reply (static_env\<lparr>prompt_reply := Some ''  ''\<rparr>) = Some labelName
                \<and> trim labelName = [])"
    by simp
  from handleAutoLabelClick_cancelled[OF s a] handleAutoLabelClick_cancelled[OF s b]
  show ?thesis by (simp add: mail_page_def)
qed



text \<open>
  C9. When the From field of the matched rule holds a value that does not contain the
  new sender, \<open>updateExistingFilter\<close> writes that value, the separator \<^verbatim>\<open> | \<close> and the
  new sender to the field (so that the field then holds exactly this) and dispatches the
  change notification; the document it leaves is the written one after the reactions of
  the host application. After one wait it looks for an element whose text contains
  \<^verbatim>\<open>Update filter\<close>: when there is one it clicks it, once, and waits; when there is
  none it clicks nothing. In both cases it returns normally. The witness is the scenario
  of the specification, with \<^verbatim>\<open>old@example.com\<close> in the field and
  \<^verbatim>\<open>jane@example.com\<close> as the new sender; the counterexample is the same scenario
  on a form without the update affordance.
\<close>

theorem updateExistingFilter_appends_sender:
  assumes "d1 = react env (Sleep 1000) (react env (Click filterElement) (doc p))"
    and "findInputByLabel ''From'' d1 = Inr fromInput"
    and "value_at d1 fromInput = Some currentValue"
    and "\<not> js_includes currentValue newSenderEmail"
    and "d2 = react env (Sleep 500) (react env (InputEvent fromInput)
               (set_value fromInput (currentValue @ '' | '' @ newSenderEmail) d1))"
  shows "\<exists>q. updateExistingFilter env filterElement newSenderEmail p = Inr q
           \<and> trace q = trace p @ [Click filterElement, Sleep 1000,
                  SetValue fromInput (currentValue @ '' | '' @ newSenderEmail),
                  InputEvent fromInput, Sleep 500]
                @ (case find_by_text sel_button_link ''Update filter'' d2 of
                     Some updateBtn \<Rightarrow> [Click updateBtn, Sleep 500]
                   | None \<Rightarrow> [])
           \<and> doc q = (case find_by_text sel_button_link ''Update filter'' d2 of
                        Some updateBtn \<Rightarrow> react env (Sleep 500) (react env (Click updateBtn) d2)
                      | None \<Rightarrow> d2)
           \<and> value_at (set_value fromInput (currentValue @ '' | '' @ newSenderEmail) d1) fromInput
               = Some (currentValue @ '' | '' @ newSenderEmail)
           \<and> filter is_write (drop (length (trace p)) (trace q))
               = [SetValue fromInput (currentValue @ '' | '' @ newSenderEmail)]
           \<and> filter is_notification (drop (length (trace p)) (trace q)) = [InputEvent fromInput]
           \<and> filter is_click (drop (length (trace p) + 4) (trace q))
               = (case find_by_text sel_button_link ''Update filter'' d2 of
                    Some updateBtn \<Rightarrow> [Click updateBtn]
                  | None \<Rightarrow> [])"
proof -
  from update_sender_absent[OF assms] obtain q where
    r: "updateExistingFilter env filterElement newSenderEmail p = Inr q"
    and t: "trace q = trace p @ [Click filterElement, Sleep 1000,
                  SetValue fromInput (currentValue @ '' | '' @ newSenderEmail),
                  InputEvent fromInput, Sleep 500]
                @ (case find_by_text sel_button_link ''Update filter'' d2 of
                     Some updateBtn \<Rightarrow> [Click updateBtn, Sleep 500]
                   | None \<Rightarrow> [])"
    and d: "doc q = (case find_by_text sel_button_link ''Update filter'' d2 of
                        Some updateBtn \<Rightarrow> react env (Sleep 500) (react env (Click updateBtn) d2)
                      | None \<Rightarrow> d2)"
    by blast
  from t have w: "filter is_write (drop (length (trace p)) (trace q))
               = [SetValue fromInput (currentValue @ '' | '' @ newSenderEmail)]"
    and n: "filter is_notification (drop (length (trace p)) (trace q)) = [InputEvent fromInput]"
    and c: "filter is_click (drop (length (trace p) + 4) (trace q))
               = (case find_by_text sel_button_link ''Update filter'' d2 of
                    Some updateBtn \<Rightarrow> [Click updateBtn]
                  | None \<Rightarrow> [])"
    by (simp_all split: option.splits)
  from r t d w n c value_at_written[OF assms(2)] show ?thesis by blast
qed

theorem updateExistingFilter_appends_sender_witness:
  "value_at settings_doc [0, 3] = Some ''old@example.com''
   \<and> (\<exists>q. updateExistingFilter static_env [0, 1] ''jane@example.com'' settings_page = Inr q
         \<and> trace q = [Click [0, 1], Sleep 1000,
                        SetValue [0, 3] ''old@example.com | jane@example.com'',
                        InputEvent [0, 3], Sleep 500, Click [0, 5], Sleep 500]
         \<and> filter is_click (drop 4 (trace q)) = [Click [0, 5]]
         \<and> value_at (doc q) [0, 3] = Some ''old@example.com | jane@example.com'')
   \<and> value_at (set_value [0, 3] ''old@example.com | jane@example.com'' settings_doc) [0, 3]
       = Some ''old@example.com | jane@example.com''"
proof -
  have d1: "settings_doc
              = react static_env (Sleep 1000) (react static_env (Click [0, 1]) (doc settings_page))"
    by (simp add: static_env_def settings_page_def)
  have f: "findInputByLabel ''From'' settings_doc = Inr [0, 3]" by code_simp
  have c: "value_at settings_doc [0, 3] = Some ''old@example.com''" by code_simp
  have n: "\<not> js_includes ''old@example.com'' ''jane@example.com''" by code_simp
  have d2: "set_value [0, 3] (''old@example.com'' @ '' | '' @ ''jane@example.com'') settings_doc
              = react static_env (Sleep 500) (react static_env (InputEvent [0, 3])
                  (set_value [0, 3] (''old@example.com'' @ '' | '' @ ''jane@example.com'') settings_doc))"
    by (simp add: static_env_def)
  have u: "find_by_text sel_button_link ''Update filter''
             (set_value [0, 3] (''old@example.com'' @ '' | '' @ ''jane@example.com'') settings_doc)
           = Some [0, 5]"
    by code_simp
  have t: "trace settings_page = []" by (simp add: settings_page_def)
  have r: "\<And>e d. react static_env e d = d" by (simp add: static_env_def)
  from updateExistingFilter_appends_sender[OF d1 f c n d2] u c t r show ?thesis
    by auto
qed

theorem updateExistingFilter_appends_sender_counterexample:
  "value_at no_update_doc [0, 3] = Some ''old@example.com''
   \<and> thrown (updateExistingFilter static_env [0, 1] ''jane@example.com'' no_update_page) = None
   \<and> trace (final_page (updateExistingFilter static_env [0, 1] ''jane@example.com'' no_update_page))
       = [Click [0, 1], Sleep 1000, SetValue [0, 3] ''old@example.com | jane@example.com'',
          InputEvent [0, 3], Sleep 500]"
  by code_simp

text \<open>
  C10. For every string that contains an angle-bracket segment, \<open>extractEmailAddress\<close>
  returns the contents of the leftmost such segment as they are, valid or not; the scan
  for a bare address plays no part in the result. So the text-parsing step yields the
  contents when they pass validation and nothing otherwise, whatever bare address the
  text holds elsewhere.
\<close>

theorem extractEmailAddress_bracket_first:
  assumes "bracket_segment s pre g post"
  shows "\<exists>pre' g' post'. bracket_segment s pre' g' post'
           \<and> (\<forall>pre'' g'' post''. bracket_segment s pre'' g'' post'' \<longrightarrow> length pre' \<le> length pre'')
           \<and> extractEmailAddress s = g'
           \<and> parse_sender_text s = (if validateEmail g' then Some g' else None)"
proof -
  from assms have "length pre \<le> length s"
    "rmatch bracket_re (0 + length pre) (drop (length pre) s) \<noteq> None"
    by (auto simp: bracket_segment_match)
  then have "rsearch bracket_re 0 s \<noteq> None" by (rule rsearch_found)
  then obtain gs where gs: "rsearch bracket_re 0 s = Some gs" by blast
  from rsearch_first[OF this] obtain k where k: "k \<le> length s"
    "rmatch bracket_re k (drop k s) = Some gs"
    "\<forall>j < k. rmatch bracket_re j (drop j s) = None" by auto
  from k(2) obtain g' post' where d: "drop k s = ''<'' @ g' @ ''>'' @ post'"
    and g': "g' \<noteq> []" "CHR ''>'' \<notin> set g'" and gs': "gs = [''<'', g', ''>'']"
    unfolding bracket_match_iff fits_bracket by blast
  have "s = take k s @ drop k s" by simp
  with d have "s = take k s @ ''<'' @ g' @ ''>'' @ post'" by metis
  with g' have seg: "bracket_segment s (take k s) g' post'"
    by (simp add: bracket_segment_def)
  have left: "\<forall>pre'' g'' post''. bracket_segment s pre'' g'' post'' \<longrightarrow> length (take k s) \<le> length pre''"
  proof (intro allI impI)
    fix pre'' g'' post''
    assume "bracket_segment s pre'' g'' post''"
    then have "rmatch bracket_re (length pre'') (drop (length pre'') s) \<noteq> None"
      by (simp add: bracket_segment_match)
    with k(3) have "\<not> length pre'' < k" by auto
    with k(1) show "length (take k s) \<le> length pre''" by simp
  qed
  from gs gs' have e: "extractEmailAddress s = g'" by (simp add: extractEmailAddress_def)
  with g' have "parse_sender_text s = (if validateEmail g' then Some g' else None)"
    by (simp add: parse_sender_text_def)
  with seg left e show ?thesis by blast
qed

theorem extractEmailAddress_bracket_first_witness:
  "bracket_segment ''x <bad> good@a.com'' ''x '' ''bad'' '' good@a.com''
   \<and> extractEmailAddress ''x <bad> good@a.com'' = ''bad''
   \<and> parse_sender_text ''x <bad> good@a.com'' = None"
proof -
  have h: "bracket_segment ''x <bad> good@a.com'' ''x '' ''bad'' '' good@a.com''"
    by (simp add: bracket_segment_def)
  from extractEmailAddress_bracket_first[OF h] obtain g' where
    e: "extractEmailAddress ''x <bad> good@a.com'' = g'"
    and p: "parse_sender_text ''x <bad> good@a.com'' = (if validateEmail g' then Some g' else None)"
    by blast
  have c: "extractEmailAddress ''x <bad> good@a.com'' = ''bad''" by code_simp
  have v: "\<not> validateEmail ''bad''" by code_simp
  from e c have "g' = ''bad''" by simp
  with p v h c show ?thesis by simp
qed

end
